theory Spec2Isabelle
  imports Main "HOL-Library.Word"
begin

section \<open>Values, types and address spaces\<close>

text \<open>
  Modelled from the spec: the address-space tags \<open>GLOBAL_SPACE\<close> and
  \<open>SYMMETRIC_SPACE\<close> come from a header (\<open>Passes.h\<close>) that is not part of the
  sources at hand. The spec distinguishes pointer types tagged global-remote,
  symmetric-replicated and plain; the three tags are kept as an enumeration.
\<close>

datatype addrspace = DEFAULT_SPACE | GLOBAL_SPACE | SYMMETRIC_SPACE

datatype ty = PointerType addrspace | IntegerType nat | OtherType

text \<open>
  The slice of the host representation that \<open>Grappa::search\<close> inspects. Values
  are compared by address in the source, so every value that is an object of its own
  carries an identity: two instructions of the same shape with different identities
  are different values. A \<open>GetElementPtrInst\<close> carries its identity, its
  in-bounds flag, its pointer operand and its index list; a \<open>CastInst\<close> its
  identity, its operand and its destination type. Constants are unique by structure;
  a \<open>ConstantExpr\<close> carries the temporary instruction that
  \<open>getAsInstruction\<close> builds for it. Every other value is a root of the walk.
\<close>

datatype val =
    GetElementPtrInst nat bool val "val list"
  | CastInst nat val ty
  | ConstantExpr val
  | ConstantInt nat int
  | ConstantPointerNull addrspace
  | GlobalVariable nat addrspace
  | AllocaInst nat
  | Argument nat ty
  | BasicBlock nat
  | OtherValue nat ty

fun getType :: "val \<Rightarrow> ty" where
  "getType (GetElementPtrInst n inb p idxs) = getType p"
| "getType (CastInst n x t) = t"
| "getType (ConstantExpr ci) = getType ci"
| "getType (ConstantInt w n) = IntegerType w"
| "getType (ConstantPointerNull a) = PointerType a"
| "getType (GlobalVariable g a) = PointerType a"
| "getType (AllocaInst n) = PointerType DEFAULT_SPACE"
| "getType (Argument n t) = t"
| "getType (BasicBlock b) = OtherType"
| "getType (OtherValue n t) = t"

fun isPointerType :: "ty \<Rightarrow> bool" where
  "isPointerType (PointerType a) = True"
| "isPointerType t = False"

text \<open>
  \<open>gep->getPointerAddressSpace() == GLOBAL_SPACE\<close>: the address space of the type
  of the pointer operand.
\<close>

definition pointerOperandInSpace :: "val \<Rightarrow> addrspace \<Rightarrow> bool" where
  "pointerOperandInSpace p a = (getType p = PointerType a)"

text \<open>
  \<open>idx != ConstantInt::get(idx->getType(), 0)\<close>: constants are unique, so the
  pointer comparison holds exactly when \<open>idx\<close> is not the integer constant zero of
  its own type.
\<close>

fun isLiteralZero :: "val \<Rightarrow> bool" where
  "isLiteralZero (ConstantInt w n) = (n = 0)"
| "isLiteralZero v = False"

section \<open>Provenance walk\<close>

text \<open>
  What aborts or leaves the program without a defined behaviour: the assertions of
  the source, iterators and null pointers that are dereferenced, and the use of a
  pointer to an instruction that has been deleted.
\<close>

datatype error =
  UnhandledCase | MissingExit | BadVisit | InvalidIterator | AssertionFailed | DanglingPointer

text \<open>
  For a constant expression the source builds a temporary instruction, walks from
  it and deletes it. When the walk stops at the temporary itself, what is returned
  points to the deleted instruction; the type of such a result is read by the cast
  case, and the result is attached and classified by the analysis, so it is an error
  of the walk here. The walk from an instruction returns that instruction or
  something below one of its operands, so it stopped at the temporary exactly when
  it returns it.
\<close>

fun search :: "val \<Rightarrow> error + val" where
  "search (GetElementPtrInst n inb p idxs) =
     (if \<not> inb then Inr (GetElementPtrInst n inb p idxs)
      else if idxs \<noteq> [] \<and> pointerOperandInSpace p GLOBAL_SPACE \<and> \<not> isLiteralZero (hd idxs)
      then Inr (GetElementPtrInst n inb p idxs)
      else search p)"
| "search (CastInst n x t) =
     (case search x of
        Inl e \<Rightarrow> Inl e
      | Inr vv \<Rightarrow> if isPointerType (getType vv) then Inr vv else Inr (CastInst n x t))"
| "search (ConstantExpr ci) =
     (case search ci of
        Inl e \<Rightarrow> Inl e
      | Inr vv \<Rightarrow> if vv = ci then Inl DanglingPointer else Inr vv)"
| "search v = Inr v"

text \<open>
  Modelled from the spec: \<open>dyn_cast_addr\<close> is declared in the absent header; the
  spec classifies a base as global-remote (symmetric-replicated) when its type is a
  pointer tagged with that address space.
\<close>

definition isGlobalPtr :: "val \<Rightarrow> bool" where
  "isGlobalPtr v = (getType v = PointerType GLOBAL_SPACE)"

definition isSymmetricPtr :: "val \<Rightarrow> bool" where
  "isSymmetricPtr v = (getType v = PointerType SYMMETRIC_SPACE)"

fun isStatic :: "val \<Rightarrow> bool" where
  "isStatic (GlobalVariable g a) = True"
| "isStatic v = False"

fun isConst :: "val \<Rightarrow> bool" where
  "isConst (ConstantExpr ci) = True"
| "isConst (ConstantInt w n) = True"
| "isConst (ConstantPointerNull a) = True"
| "isConst (GlobalVariable g a) = True"
| "isConst (BasicBlock b) = True"
| "isConst v = False"

fun isStack :: "val \<Rightarrow> bool" where
  "isStack (AllocaInst n) = True"
| "isStack (Argument n t) = True"
| "isStack v = False"

section \<open>Instructions, blocks and functions\<close>

record callee =
  unbound :: bool
  doesNotAccessMemory :: bool

datatype inst_kind =
    LoadInst val
  | StoreInst val
  | CallInst "callee option"
  | InvokeInst "callee option"
  | PHINode
  | OtherInst

text \<open>
  An instruction: its kind (a load or store with its pointer operand, a call or
  invoke with the directly called function when there is one), the host's answer to
  \<open>mayReadOrWriteMemory\<close>, and the \<open>grappa.prov\<close> metadata slot.
\<close>

record inst =
  kind :: inst_kind
  mayReadOrWriteMemory :: bool
  grappa_prov :: "val option"

definition setProvenance :: "inst \<Rightarrow> val \<Rightarrow> inst" where
  "setProvenance i p = i\<lparr>grappa_prov := Some p\<rparr>"

definition getProvenance :: "inst \<Rightarrow> val option" where
  "getProvenance i = grappa_prov i"

definition isAnchor :: "inst \<Rightarrow> bool" where
  "isAnchor i = (case getProvenance i of
                   Some p \<Rightarrow> isGlobalPtr p \<or> isStack p
                 | None \<Rightarrow> False)"

text \<open>
  A block is its instruction sequence and the successor blocks of its terminator; a
  function is the list of its blocks in layout order. An instruction is referred to
  by its block and its position in it; position \<open>length (insts b)\<close> is \<open>end()\<close>.
\<close>

record basic_block =
  insts :: "inst list"
  succs :: "nat list"

type_synonym func = "basic_block list"
type_synonym iref = "nat \<times> nat"

definition inst_at :: "func \<Rightarrow> iref \<Rightarrow> inst option" where
  "inst_at f r = (case r of (b, k) \<Rightarrow>
     if b < length f \<and> k < length (insts (f ! b)) then Some (insts (f ! b) ! k) else None)"

text \<open>The predecessors of a block: every block whose terminator targets it.\<close>

definition preds :: "func \<Rightarrow> nat \<Rightarrow> nat list" where
  "preds f sb = filter (\<lambda>pb. sb \<in> set (succs (f ! pb))) [0..<length f]"

subsection \<open>\<open>ExtractorPass::analyzeProvenance\<close>\<close>

text \<open>The pointer operand of a load or a store; no other instruction is looked at.\<close>

definition pointerOperand :: "inst \<Rightarrow> val option" where
  "pointerOperand i = (case kind i of
                         LoadInst p \<Rightarrow> Some p
                       | StoreInst p \<Rightarrow> Some p
                       | _ \<Rightarrow> None)"

text \<open>
  The body of the inner loop for one instruction: the walk's result for the pointer
  operand of a load or store is attached; nothing is attached otherwise.
\<close>

definition analyzeInst :: "inst \<Rightarrow> error + inst" where
  "analyzeInst i =
     (case pointerOperand i of
        None \<Rightarrow> Inr i
      | Some p \<Rightarrow> (case search p of
                    Inl e \<Rightarrow> Inl e
                  | Inr prov \<Rightarrow> Inr (setProvenance i prov)))"

fun analyzeInsts :: "inst list \<Rightarrow> error + inst list" where
  "analyzeInsts [] = Inr []"
| "analyzeInsts (i # rest) =
     (case analyzeInst i of
        Inl e \<Rightarrow> Inl e
      | Inr i' \<Rightarrow> (case analyzeInsts rest of
                     Inl e \<Rightarrow> Inl e
                   | Inr rest' \<Rightarrow> Inr (i' # rest')))"

fun analyzeBlocks :: "func \<Rightarrow> error + func" where
  "analyzeBlocks [] = Inr []"
| "analyzeBlocks (bb # rest) =
     (case analyzeInsts (insts bb) of
        Inl e \<Rightarrow> Inl e
      | Inr is \<Rightarrow> (case analyzeBlocks rest of
                    Inl e \<Rightarrow> Inl e
                  | Inr rest' \<Rightarrow> Inr (bb\<lparr>insts := is\<rparr> # rest')))"

text \<open>All instruction references of a function, in the order the loops visit them.\<close>

definition allRefs :: "func \<Rightarrow> iref list" where
  "allRefs f = concat (map (\<lambda>b. map (\<lambda>k. (b, k)) [0..<length (insts (f ! b))]) [0..<length f])"

text \<open>
  The function after the analysis, and the anchors in the order they are inserted.
\<close>

definition analyzeProvenance :: "func \<Rightarrow> error + func \<times> iref list" where
  "analyzeProvenance f =
     (case analyzeBlocks f of
        Inl e \<Rightarrow> Inl e
      | Inr f' \<Rightarrow>
          Inr (f', filter (\<lambda>r. case inst_at f' r of
                                  Some i \<Rightarrow> pointerOperand i \<noteq> None \<and> isAnchor i
                                | None \<Rightarrow> False) (allRefs f')))"

section \<open>Candidate regions\<close>

type_synonym CandidateMap = "iref \<rightharpoonup> nat"

text \<open>
  A region: its id, its entry instruction, the exits (boundary instruction to the
  last in-region instruction before it, \<open>None\<close> standing for the null pointer that
  \<open>getPrevNode\<close> returns at the head of a block), the target pointer and the set of
  sanctioned provenance bases. The shared membership map is passed separately and
  names the owning region by its id.
\<close>

record CandidateRegion =
  ID :: nat
  entry :: iref
  exits :: "iref \<rightharpoonup> iref option"
  target_ptr :: val
  valid_ptrs :: "val set"

subsection \<open>\<open>CandidateRegion::validInRegion\<close>\<close>

definition calleeAgnostic :: "callee option \<Rightarrow> bool" where
  "calleeAgnostic c = (case c of
                         Some fn \<Rightarrow> unbound fn \<or> doesNotAccessMemory fn
                       | None \<Rightarrow> False)"

definition validInRegion :: "CandidateRegion \<Rightarrow> inst \<Rightarrow> bool" where
  "validInRegion r i =
     (if mayReadOrWriteMemory i then
        (case getProvenance i of
           Some p \<Rightarrow> p \<in> valid_ptrs r \<or> isSymmetricPtr p \<or> isStatic p \<or> isConst p
         | None \<Rightarrow> (case kind i of
                      CallInst c \<Rightarrow> calleeAgnostic c
                    | InvokeInst c \<Rightarrow> calleeAgnostic c
                    | _ \<Rightarrow> False))
      else True)"

subsection \<open>The deduplicating queue\<close>

text \<open>
  Modelled from the spec: \<open>UniqueQueue\<close> is declared in the absent header. The spec
  calls it a deduplicating worklist on which nothing is processed twice: an element
  is enqueued only if it was never pushed before, and elements leave at the front.
\<close>

record 'a UniqueQueue =
  queue :: "'a list"
  seen :: "'a set"

definition emptyQueue :: "'a UniqueQueue" where
  "emptyQueue = \<lparr>queue = [], seen = {}\<rparr>"

definition push :: "'a \<Rightarrow> 'a UniqueQueue \<Rightarrow> 'a UniqueQueue" where
  "push x uq = (if x \<in> seen uq then uq
                else uq\<lparr>queue := queue uq @ [x], seen := insert x (seen uq)\<rparr>)"

subsection \<open>\<open>CandidateRegion::expandRegion\<close>\<close>

text \<open>
  The locals of \<open>expandRegion\<close> together with the two things it mutates outside:
  the region's exits and the shared membership map.
\<close>

record expand_state =
  worklist :: "iref UniqueQueue"
  bbs :: "nat set"
  try_again :: "nat list"
  exits_st :: "iref \<rightharpoonup> iref option"
  candidates :: CandidateMap

text \<open>Insertion into the \<open>SmallSetVector\<close>: appended unless already a member.\<close>

definition insertSV :: "nat \<Rightarrow> nat list \<Rightarrow> nat list" where
  "insertSV x xs = (if x \<in> set xs then xs else xs @ [x])"

text \<open>
  \<open>getPrevNode\<close> of the iterator at position \<open>k\<close> of block \<open>b\<close>: null at the head
  of the block, the instruction before otherwise (the last one when \<open>k\<close> is \<open>end()\<close>).
\<close>

definition getPrevNode :: "iref \<Rightarrow> iref option" where
  "getPrevNode i = (case i of (b, k) \<Rightarrow> if k = 0 then None else Some (b, k - 1))"

text \<open>
  The inner \<open>while\<close>: from position \<open>k\<close> of block \<open>b\<close>, over the remaining
  instructions, claim each valid instruction; stop at the first invalid one or at
  the end.
\<close>

fun claimWalk ::
  "CandidateRegion \<Rightarrow> nat \<Rightarrow> inst list \<Rightarrow> nat \<Rightarrow> CandidateMap \<Rightarrow> nat \<times> CandidateMap" where
  "claimWalk r b [] k c = (k, c)"
| "claimWalk r b (x # rest) k c =
     (if validInRegion r x then claimWalk r b rest (Suc k) (c((b, k) \<mapsto> ID r)) else (k, c))"

text \<open>
  The body of the loop over the successors of a sealed block, for one successor
  \<open>sb\<close>; \<open>ex\<close> is \<open>i->getPrevNode()\<close>. A successor without a first instruction has
  no \<open>begin()\<close> to dereference.
\<close>

definition handleSucc ::
  "func \<Rightarrow> CandidateRegion \<Rightarrow> iref option \<Rightarrow> nat \<Rightarrow> expand_state \<Rightarrow> error + expand_state" where
  "handleSucc f r ex sb st =
     (let target = (sb, 0) in
      case inst_at f target of
        None \<Rightarrow> Inl InvalidIterator
      | Some ti \<Rightarrow>
          let valid0 = validInRegion r ti;
              sealed = list_all (\<lambda>pb. pb \<in> bbs st) (preds f sb);
              st1 = (if valid0 \<and> \<not> sealed
                     then st\<lparr>try_again := insertSV sb (try_again st)\<rparr> else st)
          in if valid0 \<and> sealed
             then Inr (st1\<lparr>worklist := push target (worklist st1)\<rparr>)
             else if exits_st st1 target \<noteq> None \<and> exits_st st1 target \<noteq> Some ex
             then Inl UnhandledCase
             else Inr (st1\<lparr>exits_st := (exits_st st1)(target \<mapsto> ex)\<rparr>))"

fun handleSuccs ::
  "func \<Rightarrow> CandidateRegion \<Rightarrow> iref option \<Rightarrow> nat list \<Rightarrow> expand_state \<Rightarrow> error + expand_state" where
  "handleSuccs f r ex [] st = Inr st"
| "handleSuccs f r ex (sb # sbs) st =
     (case handleSucc f r ex sb st of
        Inl e \<Rightarrow> Inl e
      | Inr st' \<Rightarrow> handleSuccs f r ex sbs st')"

text \<open>
  The check of the try-again list at the end of each iteration: only its first block
  is looked at (the loop breaks). The conjunction over the predecessors is computed
  into \<open>valid\<close> and not read again.
\<close>

definition checkTryAgain :: "func \<Rightarrow> expand_state \<Rightarrow> error + expand_state" where
  "checkTryAgain f st =
     (case try_again st of
        [] \<Rightarrow> Inr st
      | bb # rest \<Rightarrow>
          let valid = list_all (\<lambda>pb. pb \<in> bbs st) (preds f bb)
          in if exits_st st (bb, 0) = None then Inl MissingExit
             else Inr (st\<lparr>exits_st := (exits_st st)((bb, 0) := None),
                          try_again := remove1 bb (try_again st),
                          worklist := push (bb, 0) (worklist st)\<rparr>))"

text \<open>One iteration of the outer \<open>while\<close>, for the popped instruction \<open>i\<close>.\<close>

definition expandStep ::
  "func \<Rightarrow> CandidateRegion \<Rightarrow> iref \<Rightarrow> expand_state \<Rightarrow> error + expand_state" where
  "expandStep f r i st =
     (case i of (b, k) \<Rightarrow>
        if \<not> b < length f then Inl InvalidIterator
        else
          (case claimWalk r b (drop k (insts (f ! b))) k (candidates st) of (k', c') \<Rightarrow>
             (case (if length (insts (f ! b)) \<le> k'
                    then handleSuccs f r (getPrevNode (b, k')) (succs (f ! b))
                           (st\<lparr>candidates := c', bbs := insert b (bbs st)\<rparr>)
                    else Inr (st\<lparr>candidates := c',
                                  exits_st := (exits_st st)((b, k') \<mapsto> getPrevNode (b, k'))\<rparr>)) of
                Inl e \<Rightarrow> Inl e
              | Inr st2 \<Rightarrow> checkTryAgain f st2)))"

partial_function (option) expandLoop ::
  "func \<Rightarrow> CandidateRegion \<Rightarrow> expand_state \<Rightarrow> (error + expand_state) option" where
  "expandLoop f r st =
     (case queue (worklist st) of
        [] \<Rightarrow> Some (Inr st)
      | i # rest \<Rightarrow>
          (case expandStep f r i (st\<lparr>worklist := (worklist st)\<lparr>queue := rest\<rparr>\<rparr>) of
             Inl e \<Rightarrow> Some (Inl e)
           | Inr st' \<Rightarrow> expandLoop f r st'))"

declare expandLoop.simps [code]

definition initState :: "CandidateRegion \<Rightarrow> CandidateMap \<Rightarrow> expand_state" where
  "initState r c = \<lparr>worklist = push (entry r) emptyQueue, bbs = {}, try_again = [],
                    exits_st = exits r, candidates = c\<rparr>"

definition expandRegion ::
  "func \<Rightarrow> CandidateRegion \<Rightarrow> CandidateMap \<Rightarrow> (error + CandidateRegion \<times> CandidateMap) option" where
  "expandRegion f r c =
     (case expandLoop f r (initState r c) of
        None \<Rightarrow> None
      | Some (Inl e) \<Rightarrow> Some (Inl e)
      | Some (Inr st) \<Rightarrow> Some (Inr (r\<lparr>exits := exits_st st\<rparr>, candidates st)))"

subsection \<open>\<open>CandidateRegion::visit\<close>\<close>

text \<open>
  The inner loop of \<open>visit\<close>: from position \<open>k\<close> of block \<open>b\<close>, with \<open>n\<close>
  instructions left, stop at a recorded exit, else yield the instruction and go on.
  The callback threads an accumulator and may abort.
\<close>

fun visitBlock ::
  "(iref \<Rightarrow> 'a \<Rightarrow> error + 'a) \<Rightarrow> CandidateRegion \<Rightarrow> nat \<Rightarrow> nat \<Rightarrow> nat \<Rightarrow> 'a
     \<Rightarrow> error + nat \<times> 'a" where
  "visitBlock yield r b 0 k acc = Inr (k, acc)"
| "visitBlock yield r b (Suc n) k acc =
     (if exits r (b, k) \<noteq> None then Inr (k, acc)
      else (case yield (b, k) acc of
              Inl e \<Rightarrow> Inl e
            | Inr acc' \<Rightarrow> visitBlock yield r b n (Suc k) acc'))"

partial_function (option) visitLoop ::
  "(iref \<Rightarrow> 'a \<Rightarrow> error + 'a) \<Rightarrow> func \<Rightarrow> CandidateRegion \<Rightarrow> iref UniqueQueue \<Rightarrow> 'a
     \<Rightarrow> (error + 'a) option" where
  "visitLoop yield f r uq acc =
     (case queue uq of
        [] \<Rightarrow> Some (Inr acc)
      | it # rest \<Rightarrow>
          if inst_at f it = None then Some (Inl InvalidIterator)
          else
            (case visitBlock yield r (fst it) (length (insts (f ! fst it)) - snd it) (snd it) acc of
               Inl e \<Rightarrow> Some (Inl e)
             | Inr (k', acc') \<Rightarrow>
                 visitLoop yield f r
                   (if k' = length (insts (f ! fst it))
                    then fold (\<lambda>sb. push (sb, 0)) (succs (f ! fst it)) (uq\<lparr>queue := rest\<rparr>)
                    else uq\<lparr>queue := rest\<rparr>)
                   acc'))"

declare visitLoop.simps [code]

definition visit ::
  "(iref \<Rightarrow> 'a \<Rightarrow> error + 'a) \<Rightarrow> func \<Rightarrow> CandidateRegion \<Rightarrow> 'a \<Rightarrow> (error + 'a) option" where
  "visit yield f r acc = visitLoop yield f r (push (entry r) emptyQueue) acc"

section \<open>The driver: \<open>ExtractorPass::runOnModule\<close>, per function\<close>

text \<open>
  What the loop over the anchors of one function reads and writes: the shared
  membership map, the id counter, and the regions created for this function keyed by
  their anchor.
\<close>

record driver_state =
  candidate_map :: CandidateMap
  id_counter :: nat
  fn_candidates :: "iref \<rightharpoonup> CandidateRegion"

text \<open>The constructor, followed by \<open>valid_ptrs.insert(p)\<close>.\<close>

definition newRegion :: "nat \<Rightarrow> val \<Rightarrow> iref \<Rightarrow> CandidateRegion" where
  "newRegion n p a =
     (let r = \<lparr>ID = n, entry = a, exits = Map.empty, target_ptr = p, valid_ptrs = {}\<rparr>
      in r\<lparr>valid_ptrs := insert p (valid_ptrs r)\<rparr>)"

text \<open>The callback of the check after growth: every visited instruction is owned by \<open>r\<close>.\<close>

definition ownedBy :: "CandidateMap \<Rightarrow> CandidateRegion \<Rightarrow> iref \<Rightarrow> unit \<Rightarrow> error + unit" where
  "ownedBy cm r i u = (if cm i \<noteq> Some (ID r) then Inl BadVisit else Inr u)"

text \<open>
  The body of the loop over the anchors. An anchor without provenance would make
  \<open>isGlobalPtr\<close> dereference a null pointer.
\<close>

definition processAnchor :: "func \<Rightarrow> driver_state \<Rightarrow> iref \<Rightarrow> (error + driver_state) option" where
  "processAnchor f st a =
     (case inst_at f a of
        None \<Rightarrow> Some (Inl InvalidIterator)
      | Some ai \<Rightarrow>
          if candidate_map st a \<noteq> None then Some (Inr st)
          else
            (case getProvenance ai of
               None \<Rightarrow> Some (Inl InvalidIterator)
             | Some p \<Rightarrow>
                 if isGlobalPtr p then
                   (case expandRegion f (newRegion (id_counter st) p a) (candidate_map st) of
                      None \<Rightarrow> None
                    | Some (Inl e) \<Rightarrow> Some (Inl e)
                    | Some (Inr (r, cm)) \<Rightarrow>
                        (case visit (ownedBy cm r) f r () of
                           None \<Rightarrow> None
                         | Some (Inl e) \<Rightarrow> Some (Inl e)
                         | Some (Inr u) \<Rightarrow>
                             Some (Inr (st\<lparr>candidate_map := cm,
                                           id_counter := Suc (id_counter st),
                                           fn_candidates := (fn_candidates st)(a \<mapsto> r)\<rparr>))))
                 else Some (Inr st)))"

fun processAnchors :: "func \<Rightarrow> driver_state \<Rightarrow> iref list \<Rightarrow> (error + driver_state) option" where
  "processAnchors f st [] = Some (Inr st)"
| "processAnchors f st (a # rest) =
     (case processAnchor f st a of
        None \<Rightarrow> None
      | Some (Inl e) \<Rightarrow> Some (Inl e)
      | Some (Inr st') \<Rightarrow> processAnchors f st' rest)"

section \<open>Auxiliary notions for the proofs\<close>

text \<open>
  The blocks that occur as a successor of some block of the function, the
  instruction references that can ever be pushed for them, and the quantity that
  decreases with every iteration of the outer loop of \<open>expandRegion\<close>.
\<close>

definition succBlocks :: "func \<Rightarrow> nat set" where
  "succBlocks f = (\<Union>b \<in> {..<length f}. set (succs (f ! b)))"

definition pushable :: "func \<Rightarrow> iref set" where
  "pushable f = (\<lambda>sb. (sb, 0)) ` succBlocks f"

definition workMeasure :: "func \<Rightarrow> iref UniqueQueue \<Rightarrow> nat" where
  "workMeasure f uq = 2 * card (pushable f - seen uq) + length (queue uq)"

text \<open>
  The states that the outer loop of \<open>expandRegion\<close> passes through when it grows
  region \<open>r\<close> over membership map \<open>c\<close>: the initial state, and the state after
  each iteration that did not abort.
\<close>

inductive reachable :: "func \<Rightarrow> CandidateRegion \<Rightarrow> CandidateMap \<Rightarrow> expand_state \<Rightarrow> bool"
  for f :: func and r :: CandidateRegion and c :: CandidateMap where
  init: "reachable f r c (initState r c)"
| step: "reachable f r c s \<Longrightarrow> queue (worklist s) = i # rest \<Longrightarrow>
         expandStep f r i (s\<lparr>worklist := (worklist s)\<lparr>queue := rest\<rparr>\<rparr>) = Inr s' \<Longrightarrow>
         reachable f r c s'"

section \<open>Example functions\<close>

definition gp :: val where
  "gp = Argument 0 (PointerType GLOBAL_SPACE)"

definition plainInst :: inst where
  "plainInst = \<lparr>kind = OtherInst, mayReadOrWriteMemory = False, grappa_prov = None\<rparr>"

definition loadFrom :: "val \<Rightarrow> inst" where
  "loadFrom p = \<lparr>kind = LoadInst p, mayReadOrWriteMemory = True, grappa_prov = None\<rparr>"

definition storeTo :: "val \<Rightarrow> inst" where
  "storeTo p = \<lparr>kind = StoreInst p, mayReadOrWriteMemory = True, grappa_prov = None\<rparr>"

text \<open>
  A diamond: block 0 branches to blocks 1 and 2, which both branch to block 3. Block 1
  loads through a global-remote argument, block 2 stores to a stack slot.
\<close>

definition diamondFn :: func where
  "diamondFn =
     [\<lparr>insts = [plainInst], succs = [1, 2]\<rparr>,
      \<lparr>insts = [loadFrom gp, plainInst], succs = [3]\<rparr>,
      \<lparr>insts = [storeTo (AllocaInst 7), plainInst], succs = [3]\<rparr>,
      \<lparr>insts = [plainInst, plainInst], succs = []\<rparr>]"

text \<open>
  Three blocks laid out as 0, 1, 2 with control flowing 0 to 2 to 1. Blocks 2 and 1
  each load through the same global-remote argument.
\<close>

definition layoutFn :: func where
  "layoutFn =
     [\<lparr>insts = [plainInst], succs = [2]\<rparr>,
      \<lparr>insts = [loadFrom gp, plainInst], succs = []\<rparr>,
      \<lparr>insts = [loadFrom gp, plainInst], succs = [1]\<rparr>]"

text \<open>
  Block 1 loads through the global-remote argument and branches to blocks 2 and 3;
  block 2 branches to block 3, which starts with a store to a stack slot.
\<close>

definition triangleFn :: func where
  "triangleFn =
     [\<lparr>insts = [plainInst], succs = [1]\<rparr>,
      \<lparr>insts = [loadFrom gp, plainInst], succs = [2, 3]\<rparr>,
      \<lparr>insts = [plainInst, plainInst], succs = [3]\<rparr>,
      \<lparr>insts = [storeTo (AllocaInst 7), plainInst], succs = []\<rparr>]"

definition initDriver :: driver_state where
  "initDriver = \<lparr>candidate_map = Map.empty, id_counter = 0, fn_candidates = Map.empty\<rparr>"

text \<open>
  What holds of every state the growth of a freshly created region passes through:
  an exit recorded for an instruction that is not the first of its block has the
  instruction before it as frontier; every queued instruction and the first
  instruction of every deferred block exist and are valid.
\<close>

definition growthInv :: "func \<Rightarrow> CandidateRegion \<Rightarrow> expand_state \<Rightarrow> bool" where
  "growthInv f r s \<longleftrightarrow>
     (\<forall>b k fr. exits_st s (b, k) = Some fr \<longrightarrow> 0 < k \<longrightarrow> fr = Some (b, k - 1))
     \<and> (\<forall>i \<in> set (queue (worklist s)). \<exists>x. inst_at f i = Some x \<and> validInRegion r x)
     \<and> (\<forall>bb \<in> set (try_again s). \<exists>x. inst_at f (bb, 0) = Some x \<and> validInRegion r x)"

text \<open>
  The triangle after provenance analysis, the region the driver creates for its
  anchor, and the states before and after the first iteration of its growth.
\<close>

definition triF :: func where
  "triF = fst (projr (analyzeProvenance triangleFn))"

definition triR :: CandidateRegion where
  "triR = newRegion 0 gp (1, 0)"

definition triS0 :: expand_state where
  "triS0 = (initState triR Map.empty)\<lparr>worklist := (worklist (initState triR Map.empty))\<lparr>queue := []\<rparr>\<rparr>"

definition triS1 :: expand_state where
  "triS1 = projr (expandStep triF triR (1, 0) triS0)"

text \<open>
  The diamond and the three-block layout after provenance analysis, with the regions
  the driver creates for their anchors; a call of a function marked \<open>unbound\<close> that
  may access memory.
\<close>

definition diaF :: func where
  "diaF = fst (projr (analyzeProvenance diamondFn))"

definition diaR :: CandidateRegion where
  "diaR = newRegion 0 gp (1, 0)"

definition layF :: func where
  "layF = fst (projr (analyzeProvenance layoutFn))"

definition unboundCall :: inst where
  "unboundCall = \<lparr>kind = CallInst (Some \<lparr>unbound = True, doesNotAccessMemory = False\<rparr>),
                   mayReadOrWriteMemory = True, grappa_prov = None\<rparr>"

text \<open>The callback that collects the instructions a region's \<open>visit\<close> yields.\<close>

definition collect :: "iref \<Rightarrow> iref list \<Rightarrow> error + iref list" where
  "collect i acc = Inr (acc @ [i])"

text \<open>A block that holds a load, the call of the \<open>unbound\<close> function and a return.\<close>

definition callFn :: func where
  "callFn = [\<lparr>insts = [loadFrom gp, unboundCall, plainInst], succs = []\<rparr>]"

section \<open>Extraction: \<open>CandidateRegion::extractRegion\<close>\<close>

text \<open>
  The model takes up \<open>extractRegion\<close> where the blocks have been split at the
  boundaries and collected (the set \<open>bbs\<close> of the source, here the list \<open>rbs\<close> of
  block numbers of the function): the entry is the first instruction of \<open>bb_in\<close>, and
  the loop over the exits asserts that every boundary instruction is the first of
  its block. Operands of instructions other than the targets of terminators are not
  part of the model; the values of the region that are used outside it are given as
  the list \<open>outputs\<close>, and the loading of inputs and outputs, which rewrites such
  operands only, leaves no trace here.

  The blocks of the outlined function after cloning: each cloned block is kept with
  the original block it was cloned from, and holds the clones of that block's
  instructions together with what the extractor inserts. \<open>OutGEP i\<close> is the address
  of field \<open>i\<close> of the output struct, \<open>OutStore v i\<close> the store of the clone of
  \<open>v\<close> to it.
\<close>

datatype new_inst = Cloned iref | OutGEP nat | OutStore iref nat

type_synonym new_blocks = "(nat \<times> new_inst list) list"

text \<open>The builder inserts before the terminator, the last instruction of the block.\<close>

definition insertBeforeTerminator :: "new_inst list \<Rightarrow> new_inst list \<Rightarrow> new_inst list" where
  "insertBeforeTerminator xs new = butlast xs @ new @ [last xs]"

text \<open>
  The body of the loop that stores the outputs, for output \<open>v\<close> at index \<open>i\<close>: the
  clone of \<open>v\<close> must exist; the insertion point is the terminator of the cloned
  block that contains it.
\<close>

definition storeOutput :: "nat \<Rightarrow> iref \<Rightarrow> new_blocks \<Rightarrow> error + new_blocks" where
  "storeOutput i v bs =
     (if \<not> list_ex (\<lambda>(b, xs). b = fst v \<and> Cloned v \<in> set xs) bs then Inl AssertionFailed
      else Inr (map (\<lambda>(b, xs). if b = fst v
                                then (b, insertBeforeTerminator xs [OutGEP i, OutStore v i])
                                else (b, xs)) bs))"

fun storeOutputs :: "nat \<Rightarrow> iref list \<Rightarrow> new_blocks \<Rightarrow> error + new_blocks" where
  "storeOutputs i [] bs = Inr bs"
| "storeOutputs i (v # outputs) bs =
     (case storeOutput i v bs of
        Inl e \<Rightarrow> Inl e
      | Inr bs' \<Rightarrow> storeOutputs (Suc i) outputs bs')"

text \<open>
  The stores that end up in the clone of block \<open>b\<close>, for the outputs numbered from
  \<open>i\<close>, and a block with such stores put before its terminator.
\<close>

fun storesFor :: "nat \<Rightarrow> nat \<Rightarrow> iref list \<Rightarrow> new_inst list" where
  "storesFor b i [] = []"
| "storesFor b i (v # outputs) =
     (if fst v = b then [OutGEP i, OutStore v i] else []) @ storesFor b (Suc i) outputs"

definition withStores :: "new_inst list \<Rightarrow> new_inst list \<Rightarrow> new_inst list" where
  "withStores xs ss = (if ss = [] then xs else insertBeforeTerminator xs ss)"

text \<open>
  The blocks that terminators, phi nodes and the clone map name: blocks of the
  original function, their clones, the entry and the return block of the outlined
  function, and the call block put into the original function.
\<close>

datatype bb_ref = OrigBB nat | CloneBB nat | BBEntry | BBCall | BBRet

text \<open>\<open>bb->getParent() == new_fn\<close>.\<close>

fun inNewFn :: "bb_ref \<Rightarrow> bool" where
  "inNewFn (OrigBB b) = False"
| "inNewFn BBCall = False"
| "inNewFn t = True"

text \<open>
  What extraction builds and rewrites: the cloned blocks and the targets of their
  terminators; the targets of the terminators of the original blocks, by block
  number, and the incoming blocks of the phi nodes of each original block; the clone
  map on blocks; the exit counter, the incoming values of the return phi of the
  outlined function and the cases of the switch after the call (its default is the
  call block). Exit codes are constants of the 16-bit return type.
\<close>

record extraction =
  new_insts :: new_blocks
  new_targets :: "(nat \<times> bb_ref list) list"
  old_targets :: "bb_ref list list"
  old_phis :: "nat \<Rightarrow> bb_ref list list"
  clone_map :: "bb_ref \<rightharpoonup> bb_ref"
  exit_id :: int
  phi_ret :: "(16 word \<times> bb_ref) list"
  exit_switch :: "(16 word \<times> bb_ref) list"

text \<open>
  \<open>CloneBasicBlock\<close> copies the instructions, operands unchanged: the terminator of
  a clone still names the original successors. The loop over \<open>bbs\<close> enters each
  block and its clone into the clone map.
\<close>

definition cloneBasicBlock :: "func \<Rightarrow> nat \<Rightarrow> new_inst list" where
  "cloneBasicBlock f b = map (\<lambda>k. Cloned (b, k)) [0..<length (insts (f ! b))]"

definition cloneBlocks :: "func \<Rightarrow> (nat \<Rightarrow> nat list list) \<Rightarrow> nat list \<Rightarrow> extraction" where
  "cloneBlocks f phis rbs =
     \<lparr>new_insts = map (\<lambda>b. (b, cloneBasicBlock f b)) rbs,
      new_targets = map (\<lambda>b. (b, map OrigBB (succs (f ! b)))) rbs,
      old_targets = map (\<lambda>bb. map OrigBB (succs bb)) f,
      old_phis = (\<lambda>b. map (map OrigBB) (phis b)),
      clone_map = map_of (map (\<lambda>b. (OrigBB b, CloneBB b)) rbs),
      exit_id = 0, phi_ret = [], exit_switch = []\<rparr>"

text \<open>One block put for another where a terminator or a phi node names it.\<close>

definition substBB :: "bb_ref \<Rightarrow> bb_ref \<Rightarrow> bb_ref \<Rightarrow> bb_ref" where
  "substBB old new t = (if t = old then new else t)"

text \<open>
  Modelled from the spec: the macro \<open>for_each\<close> of the loop over the predecessors
  of \<open>bb_in\<close> is declared in the absent header; the spec has the original code
  replaced by the dispatching call, and the loop is taken to run over all
  predecessors of the block. Those outside the region are sent to the call block
  (\<open>replaceUsesOfWith\<close> on their terminators).
\<close>

definition redirectEntry :: "nat list \<Rightarrow> nat \<Rightarrow> extraction \<Rightarrow> extraction" where
  "redirectEntry rbs bb_in w =
     w\<lparr>old_targets := map (\<lambda>(p, ts). if p \<in> set rbs then ts
                                      else map (substBB (OrigBB bb_in) BBCall) ts)
                          (zip [0..<length (old_targets w)] (old_targets w))\<rparr>"

text \<open>
  \<open>replaceAllUsesWith\<close> on the block \<open>bp\<close>, with the call block as the new value.
  This is \<open>Value::replaceAllUsesWith\<close> of the LLVM library, which does three things,
  in this order.

  \<^item> It notifies the value handles of the old value. The clone map is a
    \<open>ValueToValueMapTy\<close>, that is a \<open>ValueMap<const Value*, WeakVH>\<close>; the keys of a
    \<open>ValueMap\<close> are callback handles, and with the default configuration
    (\<open>FollowRAUW = true\<close>) the map updates itself when a key is replaced: the entry
    of the old key is erased and inserted under the new key. The insertion does not
    overwrite, so nothing is entered when the new key has an entry already.

  \<^item> It sets every use of the old value to the new one. A block is used by the
    terminators that branch to it: in the original function, in the switch after
    the call, and in the clones, whose terminators still name original blocks.

  \<^item> For a block, \<open>replaceSuccessorsPhiUsesWith\<close> goes through the successors of
    the block's own terminator and, in their phi nodes, replaces the block as
    incoming block by the new one (incoming blocks of phi nodes are not uses).
\<close>

definition followRAUW :: "bb_ref \<Rightarrow> bb_ref \<Rightarrow> (bb_ref \<rightharpoonup> bb_ref) \<Rightarrow> (bb_ref \<rightharpoonup> bb_ref)" where
  "followRAUW old new cm =
     (case cm old of
        None \<Rightarrow> cm
      | Some t \<Rightarrow> (case (cm(old := None)) new of
                     None \<Rightarrow> (cm(old := None))(new \<mapsto> t)
                   | Some u \<Rightarrow> cm(old := None)))"

definition targetsOf :: "bb_ref list list \<Rightarrow> nat \<Rightarrow> bb_ref list" where
  "targetsOf ts b = (if b < length ts then ts ! b else [])"

definition replaceAllUsesWith :: "nat \<Rightarrow> extraction \<Rightarrow> extraction" where
  "replaceAllUsesWith bp w =
     (let s = substBB (OrigBB bp) BBCall;
          old' = map (map s) (old_targets w)
      in w\<lparr>clone_map := followRAUW (OrigBB bp) BBCall (clone_map w),
            old_targets := old',
            new_targets := map (\<lambda>(b, ts). (b, map s ts)) (new_targets w),
            exit_switch := map (\<lambda>(cv, d). (cv, s d)) (exit_switch w),
            old_phis := (\<lambda>x. if OrigBB x \<in> set (targetsOf old' bp)
                               then map (map s) (old_phis w x) else old_phis w x)\<rparr>)"

text \<open>
  The body of the loop over the exits, for the exit with boundary instruction
  \<open>after_exit\<close> and frontier \<open>before\<close> (null when \<open>None\<close>). An instruction is a key
  of the clone map when the clone of its block holds its clone.
\<close>

definition wireExit :: "iref \<times> iref option \<Rightarrow> extraction \<Rightarrow> error + extraction" where
  "wireExit e w =
     (case e of (after_exit, before) \<Rightarrow>
        if snd after_exit \<noteq> 0 then Inl AssertionFailed
        else
          (case before of
             None \<Rightarrow> Inl InvalidIterator
           | Some before_exit \<Rightarrow>
               let bb_exit = fst after_exit; bp = fst before_exit in
               if bp = bb_exit then Inl AssertionFailed
               else if \<not> list_ex (\<lambda>(b, xs). b = bp \<and> Cloned before_exit \<in> set xs) (new_insts w)
               then Inl AssertionFailed
               else
                 (case clone_map w (OrigBB bp) of
                    None \<Rightarrow> Inl AssertionFailed
                  | Some bb_pred \<Rightarrow>
                      if \<not> inNewFn bb_pred then Inl AssertionFailed
                      else
                        let exit_code = (word_of_int (exit_id w) :: 16 word);
                            w1 = w\<lparr>exit_id := exit_id w + 1,
                                   phi_ret := phi_ret w @ [(exit_code, bb_pred)],
                                   exit_switch := exit_switch w @ [(exit_code, OrigBB bb_exit)],
                                   old_phis := (old_phis w)
                                     (bb_exit := map (map (substBB bb_pred BBCall))
                                                   (old_phis w bb_exit))\<rparr>;
                            w2 = replaceAllUsesWith bp w1
                        in Inr (w2\<lparr>clone_map := (clone_map w2)(OrigBB bb_exit \<mapsto> BBRet)\<rparr>))))"

fun wireExits :: "(iref \<times> iref option) list \<Rightarrow> extraction \<Rightarrow> error + extraction" where
  "wireExits [] w = Inr w"
| "wireExits (e # es) w =
     (case wireExit e w of
        Inl err \<Rightarrow> Inl err
      | Inr w' \<Rightarrow> wireExits es w')"

text \<open>
  \<open>RemapInstruction\<close> with \<open>RF_IgnoreMissingEntries\<close> over the outlined function: an
  operand that is a key of the clone map is replaced by its entry.
\<close>

definition remapBB :: "(bb_ref \<rightharpoonup> bb_ref) \<Rightarrow> bb_ref \<Rightarrow> bb_ref" where
  "remapBB cm t = (case cm t of Some t' \<Rightarrow> t' | None \<Rightarrow> t)"

definition remapInstructions :: "extraction \<Rightarrow> extraction" where
  "remapInstructions w =
     w\<lparr>new_targets := map (\<lambda>(b, ts). (b, map (remapBB (clone_map w)) ts)) (new_targets w)\<rparr>"

text \<open>
  The checks at the end. In the outlined function no block is used from outside it
  and every successor of a block is a block of it. No block of the region is used by
  an instruction outside the region's blocks: the terminator of an original block
  outside it, the switch after the call, or a terminator of the outlined function.
\<close>

definition newFnClosed :: "extraction \<Rightarrow> bool" where
  "newFnClosed w =
     (list_all (list_all (\<lambda>t. \<not> inNewFn t)) (old_targets w)
      \<and> list_all (\<lambda>(cv, d). \<not> inNewFn d) (exit_switch w)
      \<and> list_all (\<lambda>(b, ts). list_all inNewFn ts) (new_targets w))"

definition isRegionBlock :: "nat list \<Rightarrow> bb_ref \<Rightarrow> bool" where
  "isRegionBlock rbs t = (case t of OrigBB b \<Rightarrow> b \<in> set rbs | _ \<Rightarrow> False)"

definition regionUnused :: "nat list \<Rightarrow> extraction \<Rightarrow> bool" where
  "regionUnused rbs w =
     (list_all (\<lambda>(p, ts). p \<in> set rbs \<or> list_all (\<lambda>t. \<not> isRegionBlock rbs t) ts)
        (zip [0..<length (old_targets w)] (old_targets w))
      \<and> list_all (\<lambda>(cv, d). \<not> isRegionBlock rbs d) (exit_switch w)
      \<and> list_all (\<lambda>(b, ts). list_all (\<lambda>t. \<not> isRegionBlock rbs t) ts) (new_targets w))"

text \<open>
  \<open>extractRegion\<close> from the cloning on: clone the blocks, store the outputs, send
  the outside predecessors of the entry block to the call block, wire the exits,
  remap the outlined function, check.
\<close>

definition extractRegion ::
  "func \<Rightarrow> (nat \<Rightarrow> nat list list) \<Rightarrow> nat list \<Rightarrow> nat \<Rightarrow> iref list
     \<Rightarrow> (iref \<times> iref option) list \<Rightarrow> error + extraction" where
  "extractRegion f phis rbs bb_in outputs es =
     (let w0 = cloneBlocks f phis rbs in
      case storeOutputs 0 outputs (new_insts w0) of
        Inl e \<Rightarrow> Inl e
      | Inr bs \<Rightarrow>
          (case wireExits es (redirectEntry rbs bb_in (w0\<lparr>new_insts := bs\<rparr>)) of
             Inl e \<Rightarrow> Inl e
           | Inr w \<Rightarrow>
               let w' = remapInstructions w in
               if newFnClosed w' \<and> regionUnused rbs w' then Inr w' else Inl AssertionFailed))"



text \<open>
  Examples. A function of four blocks in a row: block 1 loads through the
  global-remote argument, block 2 computes, block 3 stores to a stack slot. The
  region grown from the load is blocks 1 and 2, left from the end of block 2 to
  block 3; the loaded value is its one output.
\<close>

definition chainFn :: func where
  "chainFn =
     [\<lparr>insts = [plainInst, plainInst], succs = [1]\<rparr>,
      \<lparr>insts = [loadFrom gp, plainInst], succs = [2]\<rparr>,
      \<lparr>insts = [plainInst, plainInst], succs = [3]\<rparr>,
      \<lparr>insts = [storeTo (AllocaInst 7), plainInst], succs = []\<rparr>]"

definition chainF :: func where
  "chainF = fst (projr (analyzeProvenance chainFn))"

definition chainExits :: "(iref \<times> iref option) list" where
  "chainExits = [((3, 0), Some (2, 1))]"










section \<open>Provenance: theorems\<close>

text \<open>
  C4. For every pointer value: an in-bounds address computation with indices whose
  base pointer is in the global-remote address space and whose first index is not
  the literal constant zero is its own provenance root; with a literal-zero first
  index at a global-remote base, or with a base that is not global-remote (any
  indices), the walk continues transparently on the base pointer; an address
  computation that is not in-bounds is its own root.
\<close>

theorem search_gep_cases:
  "(idxs \<noteq> [] \<and> getType p = PointerType GLOBAL_SPACE \<and> \<not> isLiteralZero (hd idxs)
      \<longrightarrow> search (GetElementPtrInst n True p idxs) = Inr (GetElementPtrInst n True p idxs))
   \<and> (idxs \<noteq> [] \<and> getType p = PointerType GLOBAL_SPACE \<and> isLiteralZero (hd idxs)
      \<longrightarrow> search (GetElementPtrInst n True p idxs) = search p)
   \<and> (getType p \<noteq> PointerType GLOBAL_SPACE
      \<longrightarrow> search (GetElementPtrInst n True p idxs) = search p)
   \<and> search (GetElementPtrInst n False p idxs) = Inr (GetElementPtrInst n False p idxs)"
  by (simp add: pointerOperandInSpace_def)

theorem search_gep_cases_witness:
  "search (GetElementPtrInst 5 True (Argument 0 (PointerType GLOBAL_SPACE)) [ConstantInt 64 3])
     = Inr (GetElementPtrInst 5 True (Argument 0 (PointerType GLOBAL_SPACE)) [ConstantInt 64 3])
   \<and> search (GetElementPtrInst 5 True (Argument 0 (PointerType GLOBAL_SPACE)) [ConstantInt 64 0])
     = Inr (Argument 0 (PointerType GLOBAL_SPACE))
   \<and> search (GetElementPtrInst 5 True (AllocaInst 1) [ConstantInt 64 3]) = Inr (AllocaInst 1)
   \<and> search (GetElementPtrInst 5 False (AllocaInst 1) [ConstantInt 64 0])
     = Inr (GetElementPtrInst 5 False (AllocaInst 1) [ConstantInt 64 0])"
  using search_gep_cases [of "[ConstantInt 64 3]" "Argument 0 (PointerType GLOBAL_SPACE)" 5]
        search_gep_cases [of "[ConstantInt 64 0]" "Argument 0 (PointerType GLOBAL_SPACE)" 5]
        search_gep_cases [of "[ConstantInt 64 3]" "AllocaInst 1" 5]
        search_gep_cases [of "[ConstantInt 64 0]" "AllocaInst 1" 5]
  by simp

section \<open>Region growth: termination\<close>

lemma finite_pushable: "finite (pushable f)"
  by (simp add: pushable_def succBlocks_def)

lemma workMeasure_push:
  assumes "x \<in> pushable f"
  shows "workMeasure f (push x uq) \<le> workMeasure f uq"
proof (cases "x \<in> seen uq")
  case True
  then show ?thesis by (simp add: push_def)
next
  case False
  have fin: "finite (pushable f - seen uq)" using finite_pushable by simp
  have mem: "x \<in> pushable f - seen uq" using assms False by simp
  have eq: "pushable f - insert x (seen uq) = (pushable f - seen uq) - {x}" by auto
  have "card ((pushable f - seen uq) - {x}) = card (pushable f - seen uq) - 1"
    using fin mem by (simp add: card_Diff_singleton)
  moreover have "0 < card (pushable f - seen uq)"
    using fin mem by (auto simp: card_gt_0_iff)
  ultimately show ?thesis using False
    by (simp add: push_def workMeasure_def eq)
qed

lemma handleSucc_measure:
  assumes "handleSucc f r ex sb st = Inr st'" and "sb \<in> succBlocks f"
      and "set (try_again st) \<subseteq> succBlocks f"
  shows "workMeasure f (worklist st') \<le> workMeasure f (worklist st)
         \<and> set (try_again st') \<subseteq> succBlocks f"
proof -
  have p: "(sb, 0) \<in> pushable f" using assms(2) by (simp add: pushable_def)
  show ?thesis using assms workMeasure_push [OF p]
    by (auto simp: handleSucc_def Let_def insertSV_def split: option.splits if_splits)
qed

lemma handleSuccs_measure:
  assumes "handleSuccs f r ex sbs st = Inr st'" and "set sbs \<subseteq> succBlocks f"
      and "set (try_again st) \<subseteq> succBlocks f"
  shows "workMeasure f (worklist st') \<le> workMeasure f (worklist st)
         \<and> set (try_again st') \<subseteq> succBlocks f"
  using assms
proof (induction sbs arbitrary: st)
  case Nil
  then show ?case by simp
next
  case (Cons sb sbs)
  from Cons.prems(1) obtain st1 where h: "handleSucc f r ex sb st = Inr st1"
    and t: "handleSuccs f r ex sbs st1 = Inr st'"
    by (auto split: sum.splits)
  from handleSucc_measure [OF h] Cons.prems
  have a: "workMeasure f (worklist st1) \<le> workMeasure f (worklist st)"
    and b: "set (try_again st1) \<subseteq> succBlocks f" by auto
  from Cons.IH [OF t _ b] Cons.prems(2) a show ?case by auto
qed

lemma checkTryAgain_measure:
  assumes "checkTryAgain f st = Inr st'" and "set (try_again st) \<subseteq> succBlocks f"
  shows "workMeasure f (worklist st') \<le> workMeasure f (worklist st)
         \<and> set (try_again st') \<subseteq> succBlocks f"
proof (cases "try_again st")
  case Nil
  then show ?thesis using assms by (simp add: checkTryAgain_def)
next
  case (Cons bb rest)
  then have p: "(bb, 0) \<in> pushable f" using assms(2) by (auto simp: pushable_def)
  show ?thesis using assms Cons workMeasure_push [OF p, of "worklist st"]
    by (auto simp: checkTryAgain_def Let_def split: if_splits)
qed

lemma succs_in_succBlocks: "b < length f \<Longrightarrow> set (succs (f ! b)) \<subseteq> succBlocks f"
  by (auto simp: succBlocks_def)

lemma expandStep_measure:
  assumes "expandStep f r i st = Inr st'" and "set (try_again st) \<subseteq> succBlocks f"
  shows "workMeasure f (worklist st') \<le> workMeasure f (worklist st)
         \<and> set (try_again st') \<subseteq> succBlocks f"
proof -
  obtain b k where i: "i = (b, k)" by (cases i)
  obtain k' c' where w: "claimWalk r b (drop k (insts (f ! b))) k (candidates st) = (k', c')"
    by (cases "claimWalk r b (drop k (insts (f ! b))) k (candidates st)")
  from assms(1) i have bl: "b < length f" by (auto simp: expandStep_def split: if_splits)
  show ?thesis
  proof (cases "length (insts (f ! b)) \<le> k'")
    case True
    with assms(1) i w bl obtain st2 where
      h: "handleSuccs f r (getPrevNode (b, k')) (succs (f ! b))
            (st\<lparr>candidates := c', bbs := insert b (bbs st)\<rparr>) = Inr st2"
      and c: "checkTryAgain f st2 = Inr st'"
      by (auto simp: expandStep_def split: sum.splits)
    from handleSuccs_measure [OF h succs_in_succBlocks [OF bl]] assms(2)
    have a: "workMeasure f (worklist st2) \<le> workMeasure f (worklist st)"
      and t: "set (try_again st2) \<subseteq> succBlocks f" by auto
    from checkTryAgain_measure [OF c t] a show ?thesis by auto
  next
    case False
    with assms(1) i w bl have
      c: "checkTryAgain f (st\<lparr>candidates := c',
            exits_st := (exits_st st)((b, k') \<mapsto> getPrevNode (b, k'))\<rparr>) = Inr st'"
      by (auto simp: expandStep_def)
    from checkTryAgain_measure [OF c] assms(2) show ?thesis by auto
  qed
qed

lemma expandLoop_terminates:
  "set (try_again st) \<subseteq> succBlocks f \<Longrightarrow> \<exists>y. expandLoop f r st = Some y"
proof (induction "workMeasure f (worklist st)" arbitrary: st rule: less_induct)
  case less
  show ?case
  proof (cases "queue (worklist st)")
    case Nil
    then show ?thesis by (simp add: expandLoop.simps)
  next
    case (Cons i rest)
    let ?st0 = "st\<lparr>worklist := (worklist st)\<lparr>queue := rest\<rparr>\<rparr>"
    show ?thesis
    proof (cases "expandStep f r i ?st0")
      case (Inl e)
      with Cons show ?thesis by (simp add: expandLoop.simps)
    next
      case (Inr st')
      have t0: "set (try_again ?st0) \<subseteq> succBlocks f" using less.prems by simp
      from expandStep_measure [OF Inr t0]
      have a: "workMeasure f (worklist st') \<le> workMeasure f (worklist ?st0)"
        and t: "set (try_again st') \<subseteq> succBlocks f" by auto
      have "workMeasure f (worklist ?st0) < workMeasure f (worklist st)"
        using Cons by (simp add: workMeasure_def)
      with a have "workMeasure f (worklist st') < workMeasure f (worklist st)" by simp
      from less.hyps [OF this t] obtain y where "expandLoop f r st' = Some y" by blast
      with Cons Inr show ?thesis by (simp add: expandLoop.simps)
    qed
  qed
qed

text \<open>
  C9. For every function (a finite list of blocks, each a finite list of
  instructions), every region and every membership map, \<open>expandRegion\<close> returns:
  the worklist loop, with the reprocessing of deferred blocks, cannot run forever. It
  returns either the grown region or the abort of one of its assertions.
\<close>

theorem expandRegion_terminates: "\<exists>y. expandRegion f r c = Some y"
proof -
  have "set (try_again (initState r c)) \<subseteq> succBlocks f" by (simp add: initState_def)
  from expandLoop_terminates [OF this] obtain y where "expandLoop f r (initState r c) = Some y"
    by blast
  then show ?thesis by (cases y) (simp_all add: expandRegion_def)
qed

theorem expandRegion_terminates_witness:
  "\<exists>y. expandRegion diaF (newRegion 0 gp (1, 0)) Map.empty = Some y"
  using expandRegion_terminates
          [of "diaF" "newRegion 0 gp (1, 0)" Map.empty]
  by simp


section \<open>Region growth: claimed instructions are valid\<close>

lemma validInRegion_iff:
  "validInRegion r i \<longleftrightarrow>
      \<not> mayReadOrWriteMemory i
      \<or> (\<exists>p. getProvenance i = Some p
              \<and> (p \<in> valid_ptrs r \<or> isSymmetricPtr p \<or> isStatic p \<or> isConst p))
      \<or> (getProvenance i = None
          \<and> (\<exists>fn. (kind i = CallInst (Some fn) \<or> kind i = InvokeInst (Some fn))
                   \<and> (unbound fn \<or> doesNotAccessMemory fn)))"
proof (cases "mayReadOrWriteMemory i")
  case False
  then show ?thesis by (simp add: validInRegion_def)
next
  case m: True
  show ?thesis
  proof (cases "getProvenance i")
    case (Some p)
    with m show ?thesis by (simp add: validInRegion_def)
  next
    case None
    show ?thesis
    proof (cases "kind i")
      case (CallInst c)
      with m None show ?thesis
        by (cases c) (simp_all add: validInRegion_def calleeAgnostic_def)
    next
      case (InvokeInst c)
      with m None show ?thesis
        by (cases c) (simp_all add: validInRegion_def calleeAgnostic_def)
    qed (use m None in \<open>simp_all add: validInRegion_def\<close>)
  qed
qed

lemma expandLoop_invariant:
  assumes run: "expandLoop f r st = Some (Inr fin)"
      and init: "P st"
      and step: "\<And>s i rest s'. P s \<Longrightarrow> queue (worklist s) = i # rest \<Longrightarrow>
                   expandStep f r i (s\<lparr>worklist := (worklist s)\<lparr>queue := rest\<rparr>\<rparr>) = Inr s' \<Longrightarrow> P s'"
  shows "P fin \<and> queue (worklist fin) = []"
proof -
  define Q where "Q = (\<lambda>(f' :: func) (r' :: CandidateRegion) (st' :: expand_state)
      (y :: error + expand_state).
        f' = f \<longrightarrow> r' = r \<longrightarrow> P st' \<longrightarrow> (\<forall>z. y = Inr z \<longrightarrow> P z \<and> queue (worklist z) = []))"
  have "Q f r st (Inr fin)"
  proof (rule expandLoop.raw_induct [where P = Q, OF _ run])
    fix loop f' r' st' y
    assume ih: "\<And>a b c y. loop a b c = Some y \<Longrightarrow> Q a b c y"
      and eq: "(case queue (worklist st') of
                  [] \<Rightarrow> Some (Inr st')
                | i # rest \<Rightarrow>
                    (case expandStep f' r' i (st'\<lparr>worklist := (worklist st')\<lparr>queue := rest\<rparr>\<rparr>) of
                       Inl e \<Rightarrow> Some (Inl e)
                     | Inr st'' \<Rightarrow> loop f' r' st'')) = Some y"
    show "Q f' r' st' y"
      unfolding Q_def
    proof (intro impI allI)
      fix z assume ff: "f' = f" and rr: "r' = r" and p: "P st'" and y: "y = Inr z"
      show "P z \<and> queue (worklist z) = []"
      proof (cases "queue (worklist st')")
        case Nil
        with eq y p show ?thesis by simp
      next
        case (Cons i rest)
        show ?thesis
        proof (cases "expandStep f' r' i (st'\<lparr>worklist := (worklist st')\<lparr>queue := rest\<rparr>\<rparr>)")
          case (Inl e)
          with eq Cons y show ?thesis by simp
        next
          case (Inr s')
          with eq Cons have l: "loop f' r' s' = Some y" by simp
          from step [OF p Cons] Inr ff rr have "P s'" by simp
          with ih [OF l] ff rr y show ?thesis by (simp add: Q_def)
        qed
      qed
    qed
  qed
  with init show ?thesis by (simp add: Q_def)
qed

lemma claimWalk_frame:
  "claimWalk r b xs k c = (k', c') \<Longrightarrow> c' i \<noteq> c i \<Longrightarrow>
     c' i = Some (ID r) \<and> (\<exists>j < length xs. i = (b, k + j) \<and> validInRegion r (xs ! j))"
proof (induction xs arbitrary: k c)
  case Nil
  then show ?case by simp
next
  case (Cons x xs)
  show ?case
  proof (cases "validInRegion r x")
    case False
    with Cons.prems show ?thesis by simp
  next
    case True
    with Cons.prems have w: "claimWalk r b xs (Suc k) (c((b, k) \<mapsto> ID r)) = (k', c')" by simp
    show ?thesis
    proof (cases "c' i = (c((b, k) \<mapsto> ID r)) i")
      case True
      with Cons.prems(2) have "i = (b, k)" by (auto split: if_splits)
      with True \<open>validInRegion r x\<close> show ?thesis by (auto intro: exI [of _ 0])
    next
      case False
      from Cons.IH [OF w False] obtain j where "c' i = Some (ID r)" "j < length xs"
        "i = (b, Suc k + j)" "validInRegion r (xs ! j)" by blast
      then show ?thesis by (auto intro: exI [of _ "Suc j"])
    qed
  qed
qed

lemma claimWalk_drop_frame:
  assumes "claimWalk r b (drop k (insts (f ! b))) k c = (k', c')" and "b < length f"
      and "c' i \<noteq> c i"
  shows "c' i = Some (ID r) \<and> (\<exists>x. inst_at f i = Some x \<and> validInRegion r x)"
proof -
  from claimWalk_frame [OF assms(1,3)] obtain j where c: "c' i = Some (ID r)"
    and j: "j < length (drop k (insts (f ! b)))" and i: "i = (b, k + j)"
    and v: "validInRegion r (drop k (insts (f ! b)) ! j)" by blast
  from j have kj: "k + j < length (insts (f ! b))" by simp
  then have "drop k (insts (f ! b)) ! j = insts (f ! b) ! (k + j)" by simp
  with c i v kj assms(2) show ?thesis by (simp add: inst_at_def)
qed

lemma handleSucc_candidates:
  "handleSucc f r ex sb st = Inr st' \<Longrightarrow> candidates st' = candidates st"
  by (auto simp: handleSucc_def Let_def split: option.splits if_splits)

lemma handleSuccs_candidates:
  "handleSuccs f r ex sbs st = Inr st' \<Longrightarrow> candidates st' = candidates st"
proof (induction sbs arbitrary: st)
  case Nil
  then show ?case by simp
next
  case (Cons sb sbs)
  then show ?case by (auto split: sum.splits dest: handleSucc_candidates)
qed

lemma checkTryAgain_candidates:
  "checkTryAgain f st = Inr st' \<Longrightarrow> candidates st' = candidates st"
  by (auto simp: checkTryAgain_def Let_def split: list.splits if_splits)

lemma expandStep_frame:
  assumes "expandStep f r i st = Inr st'" and "candidates st' j \<noteq> candidates st j"
  shows "candidates st' j = Some (ID r) \<and> (\<exists>x. inst_at f j = Some x \<and> validInRegion r x)"
proof -
  obtain b k where i: "i = (b, k)" by (cases i)
  obtain k' c' where w: "claimWalk r b (drop k (insts (f ! b))) k (candidates st) = (k', c')"
    by (cases "claimWalk r b (drop k (insts (f ! b))) k (candidates st)")
  from assms(1) i have bl: "b < length f" by (auto simp: expandStep_def split: if_splits)
  have "candidates st' = c'"
  proof (cases "length (insts (f ! b)) \<le> k'")
    case True
    with assms(1) i w bl obtain st2 where
      h: "handleSuccs f r (getPrevNode (b, k')) (succs (f ! b))
            (st\<lparr>candidates := c', bbs := insert b (bbs st)\<rparr>) = Inr st2"
      and c: "checkTryAgain f st2 = Inr st'"
      by (auto simp: expandStep_def split: sum.splits)
    from handleSuccs_candidates [OF h] checkTryAgain_candidates [OF c] show ?thesis by simp
  next
    case False
    with assms(1) i w bl have
      c: "checkTryAgain f (st\<lparr>candidates := c',
            exits_st := (exits_st st)((b, k') \<mapsto> getPrevNode (b, k'))\<rparr>) = Inr st'"
      by (auto simp: expandStep_def)
    from checkTryAgain_candidates [OF c] show ?thesis by simp
  qed
  with claimWalk_drop_frame [OF w bl, of j] assms(2) show ?thesis by simp
qed

lemma expandLoop_frame:
  assumes run: "expandLoop f r st = Some (Inr fin)" and ne: "candidates fin j \<noteq> candidates st j"
  shows "candidates fin j = Some (ID r) \<and> (\<exists>x. inst_at f j = Some x \<and> validInRegion r x)"
proof -
  define P where "P = (\<lambda>s :: expand_state. candidates s j \<noteq> candidates st j \<longrightarrow>
              candidates s j = Some (ID r) \<and> (\<exists>x. inst_at f j = Some x \<and> validInRegion r x))"
  have init: "P st" by (simp add: P_def)
  have step: "P s'" if p: "P s" and q: "queue (worklist s) = i # rest"
    and e: "expandStep f r i (s\<lparr>worklist := (worklist s)\<lparr>queue := rest\<rparr>\<rparr>) = Inr s'"
    for s i rest s'
  proof (cases "candidates s' j = candidates s j")
    case True
    with p show ?thesis by (simp add: P_def)
  next
    case False
    then have "candidates s' j \<noteq> candidates (s\<lparr>worklist := (worklist s)\<lparr>queue := rest\<rparr>\<rparr>) j"
      by simp
    from expandStep_frame [OF e this] show ?thesis by (simp add: P_def)
  qed
  have "P fin \<and> queue (worklist fin) = []"
    by (rule expandLoop_invariant [where P = P, OF run init step])
  with ne show ?thesis by (simp add: P_def)
qed

lemma validInRegion_cong:
  "valid_ptrs r' = valid_ptrs r \<Longrightarrow> validInRegion r' i = validInRegion r i"
  by (auto simp: validInRegion_def split: option.splits)

text \<open>
  C5. The validity predicate accepts an instruction exactly when it does not touch
  memory, or it has a provenance base that is in the region's \<open>valid_ptrs\<close> or is
  classified symmetric-replicated, static or constant, or it has no provenance and is
  a call or invoke of a function marked \<open>unbound\<close> or not accessing memory. The set
  \<open>valid_ptrs\<close> of a region created by the driver holds the region's target base.
  Growth leaves \<open>valid_ptrs\<close> as it is, and every instruction whose owner it changes
  is then owned by the grown region and satisfies the predicate.
\<close>

theorem validInRegion_characterised:
  "(validInRegion r i \<longleftrightarrow>
      \<not> mayReadOrWriteMemory i
      \<or> (\<exists>p. getProvenance i = Some p
              \<and> (p \<in> valid_ptrs r \<or> isSymmetricPtr p \<or> isStatic p \<or> isConst p))
      \<or> (getProvenance i = None
          \<and> (\<exists>fn. (kind i = CallInst (Some fn) \<or> kind i = InvokeInst (Some fn))
                   \<and> (unbound fn \<or> doesNotAccessMemory fn))))
   \<and> target_ptr (newRegion n p a) \<in> valid_ptrs (newRegion n p a)
   \<and> (expandRegion f r c = Some (Inr (r', c')) \<longrightarrow>
        valid_ptrs r' = valid_ptrs r
        \<and> (\<forall>j. c' j \<noteq> c j \<longrightarrow>
               c' j = Some (ID r') \<and> (\<exists>x. inst_at f j = Some x \<and> validInRegion r' x)))"
proof (intro conjI impI)
  show "validInRegion r i \<longleftrightarrow>
      \<not> mayReadOrWriteMemory i
      \<or> (\<exists>p. getProvenance i = Some p
              \<and> (p \<in> valid_ptrs r \<or> isSymmetricPtr p \<or> isStatic p \<or> isConst p))
      \<or> (getProvenance i = None
          \<and> (\<exists>fn. (kind i = CallInst (Some fn) \<or> kind i = InvokeInst (Some fn))
                   \<and> (unbound fn \<or> doesNotAccessMemory fn)))"
    by (rule validInRegion_iff)
next
  show "target_ptr (newRegion n p a) \<in> valid_ptrs (newRegion n p a)"
    by (simp add: newRegion_def Let_def)
next
  assume e: "expandRegion f r c = Some (Inr (r', c'))"
  then obtain fin where l: "expandLoop f r (initState r c) = Some (Inr fin)"
    and r': "r' = r\<lparr>exits := exits_st fin\<rparr>" and c': "c' = candidates fin"
    by (auto simp: expandRegion_def split: option.splits sum.splits)
  show "valid_ptrs r' = valid_ptrs r" using r' by simp
  have v: "validInRegion r' x = validInRegion r x" for x
    by (rule validInRegion_cong) (simp add: r')
  show "\<forall>j. c' j \<noteq> c j \<longrightarrow>
               c' j = Some (ID r') \<and> (\<exists>x. inst_at f j = Some x \<and> validInRegion r' x)"
  proof (intro allI impI)
    fix j assume "c' j \<noteq> c j"
    then have "candidates fin j \<noteq> candidates (initState r c) j"
      using c' by (simp add: initState_def)
    from expandLoop_frame [OF l this] r' c' v
    show "c' j = Some (ID r') \<and> (\<exists>x. inst_at f j = Some x \<and> validInRegion r' x)" by simp
  qed
qed

theorem validInRegion_characterised_witness:
  "\<exists>r' c'. expandRegion diaF (newRegion 0 gp (1, 0)) Map.empty
              = Some (Inr (r', c'))
     \<and> c' (3, 0) = Some (ID r')
     \<and> (\<exists>x. inst_at diaF (3, 0) = Some x \<and> validInRegion r' x)"
proof -
  have "case expandRegion diaF (newRegion 0 gp (1, 0)) Map.empty of
          Some (Inr (r', c')) \<Rightarrow> c' (3, 0) \<noteq> None
        | _ \<Rightarrow> False"
    by code_simp
  then obtain r' c' where
    e: "expandRegion diaF (newRegion 0 gp (1, 0)) Map.empty
          = Some (Inr (r', c'))"
    and n: "c' (3, 0) \<noteq> Map.empty (3, 0)"
    by (auto split: option.splits sum.splits)
  from validInRegion_characterised
         [of "newRegion 0 gp (1, 0)" plainInst 0 gp "(1, 0)" "diaF"
             Map.empty r' c'] e n
  show ?thesis by blast
qed


section \<open>Region growth: recorded exits\<close>

lemma queue_push: "set (queue (push x uq)) \<subseteq> insert x (set (queue uq))"
  by (auto simp: push_def)

lemma handleSucc_inv:
  assumes "handleSucc f r ex sb st = Inr st'" and "growthInv f r st"
  shows "growthInv f r st'"
proof -
  from assms(1) obtain ti where ti: "inst_at f (sb, 0) = Some ti"
    by (auto simp: handleSucc_def Let_def split: option.splits)
  show ?thesis
  proof (cases "validInRegion r ti \<and> list_all (\<lambda>pb. pb \<in> bbs st) (preds f sb)")
    case True
    with assms(1) ti have st': "st' = st\<lparr>worklist := push (sb, 0) (worklist st)\<rparr>"
      by (auto simp: handleSucc_def Let_def)
    have "\<forall>i \<in> set (queue (push (sb, 0) (worklist st))).
            \<exists>x. inst_at f i = Some x \<and> validInRegion r x"
      using queue_push [of "(sb, 0)" "worklist st"] assms(2) ti True
      by (auto simp: growthInv_def)
    with assms(2) show ?thesis by (simp add: st' growthInv_def)
  next
    case False
    define st1 where "st1 = (if validInRegion r ti \<and> \<not> list_all (\<lambda>pb. pb \<in> bbs st) (preds f sb)
                     then st\<lparr>try_again := insertSV sb (try_again st)\<rparr> else st)"
    from assms(1) ti False have st': "st' = st1\<lparr>exits_st := (exits_st st1)((sb, 0) \<mapsto> ex)\<rparr>"
      by (auto simp: handleSucc_def Let_def st1_def split: if_splits)
    have "growthInv f r st1" using assms(2) ti
      by (auto simp: st1_def growthInv_def insertSV_def)
    then show ?thesis by (auto simp: st' growthInv_def)
  qed
qed

lemma handleSuccs_inv:
  "handleSuccs f r ex sbs st = Inr st' \<Longrightarrow> growthInv f r st \<Longrightarrow> growthInv f r st'"
proof (induction sbs arbitrary: st)
  case Nil
  then show ?case by simp
next
  case (Cons sb sbs)
  then show ?case by (auto split: sum.splits dest: handleSucc_inv)
qed

lemma handleSucc_exits_stable:
  "handleSucc f r ex sb st = Inr st' \<Longrightarrow> exits_st st x = Some fr \<Longrightarrow> exits_st st' x = Some fr"
  by (auto simp: handleSucc_def Let_def split: option.splits if_splits)

lemma handleSuccs_exits_stable:
  "handleSuccs f r ex sbs st = Inr st' \<Longrightarrow> exits_st st x = Some fr \<Longrightarrow> exits_st st' x = Some fr"
proof (induction sbs arbitrary: st)
  case Nil
  then show ?case by simp
next
  case (Cons sb sbs)
  then show ?case by (auto split: sum.splits dest: handleSucc_exits_stable)
qed

lemma checkTryAgain_inv:
  assumes "checkTryAgain f st = Inr st'" and "growthInv f r st"
  shows "growthInv f r st'"
proof (cases "try_again st")
  case Nil
  with assms show ?thesis by (simp add: checkTryAgain_def)
next
  case (Cons bb rest)
  with assms(1) have st': "st' = st\<lparr>exits_st := (exits_st st)((bb, 0) := None),
                          try_again := remove1 bb (try_again st),
                          worklist := push (bb, 0) (worklist st)\<rparr>"
    by (auto simp: checkTryAgain_def Let_def split: if_splits)
  from assms(2) Cons obtain x where x: "inst_at f (bb, 0) = Some x" "validInRegion r x"
    by (auto simp: growthInv_def)
  have q: "\<forall>i \<in> set (queue (push (bb, 0) (worklist st))).
            \<exists>x. inst_at f i = Some x \<and> validInRegion r x"
    using queue_push [of "(bb, 0)" "worklist st"] assms(2) x
    by (auto simp: growthInv_def)
  have t: "\<forall>b \<in> set (remove1 bb (try_again st)). \<exists>x. inst_at f (b, 0) = Some x \<and> validInRegion r x"
    using assms(2) set_remove1_subset [of bb "try_again st"] by (auto simp: growthInv_def)
  from assms(2) q t show ?thesis by (simp add: st' growthInv_def)
qed

lemma checkTryAgain_exits:
  "checkTryAgain f st = Inr st' \<Longrightarrow> exits_st st' x = Some fr \<Longrightarrow> exits_st st x = Some fr"
  by (auto simp: checkTryAgain_def Let_def split: list.splits if_splits)

lemma claimWalk_mono: "claimWalk r b xs k c = (k', c') \<Longrightarrow> k \<le> k'"
proof (induction xs arbitrary: k c)
  case Nil
  then show ?case by simp
next
  case (Cons x xs)
  then show ?case by (fastforce split: if_splits)
qed

lemma claimWalk_progress:
  assumes "claimWalk r b (x # xs) k c = (k', c')" and "validInRegion r x"
  shows "k < k'"
  using assms claimWalk_mono [of r b xs "Suc k" "c((b, k) \<mapsto> ID r)" k' c'] by simp

lemma expandStep_cases:
  assumes "expandStep f r (b, k) st = Inr st'"
  obtains k' c' st2 where "b < length f"
      "claimWalk r b (drop k (insts (f ! b))) k (candidates st) = (k', c')"
      "length (insts (f ! b)) \<le> k'"
      "handleSuccs f r (getPrevNode (b, k')) (succs (f ! b))
         (st\<lparr>candidates := c', bbs := insert b (bbs st)\<rparr>) = Inr st2"
      "checkTryAgain f st2 = Inr st'"
  | k' c' where "b < length f"
      "claimWalk r b (drop k (insts (f ! b))) k (candidates st) = (k', c')"
      "k' < length (insts (f ! b))"
      "checkTryAgain f (st\<lparr>candidates := c',
         exits_st := (exits_st st)((b, k') \<mapsto> getPrevNode (b, k'))\<rparr>) = Inr st'"
proof -
  obtain k' c' where w: "claimWalk r b (drop k (insts (f ! b))) k (candidates st) = (k', c')"
    by (cases "claimWalk r b (drop k (insts (f ! b))) k (candidates st)")
  from assms have bl: "b < length f" by (auto simp: expandStep_def split: if_splits)
  show ?thesis
  proof (cases "length (insts (f ! b)) \<le> k'")
    case True
    with assms w bl obtain st2 where
      "handleSuccs f r (getPrevNode (b, k')) (succs (f ! b))
            (st\<lparr>candidates := c', bbs := insert b (bbs st)\<rparr>) = Inr st2"
      "checkTryAgain f st2 = Inr st'"
      by (auto simp: expandStep_def split: sum.splits)
    with that(1) bl w True show ?thesis by blast
  next
    case False
    with assms w bl have
      "checkTryAgain f (st\<lparr>candidates := c',
            exits_st := (exits_st st)((b, k') \<mapsto> getPrevNode (b, k'))\<rparr>) = Inr st'"
      by (auto simp: expandStep_def)
    with that(2) bl w False show ?thesis by auto
  qed
qed

lemma growthInv_popped:
  assumes "growthInv f r s" and "queue (worklist s) = i # rest"
  shows "growthInv f r (s\<lparr>worklist := (worklist s)\<lparr>queue := rest\<rparr>\<rparr>)"
    and "\<exists>x. inst_at f i = Some x \<and> validInRegion r x"
  using assms by (auto simp: growthInv_def)

lemma midblock_progress:
  assumes w: "claimWalk r b (drop k (insts (f ! b))) k c = (k', c')"
      and v: "inst_at f (b, k) = Some x" "validInRegion r x"
  shows "k < k'"
proof -
  from v(1) have kl: "k < length (insts (f ! b))" and x: "x = insts (f ! b) ! k"
    by (auto simp: inst_at_def split: if_splits)
  then have "drop k (insts (f ! b)) = x # drop (Suc k) (insts (f ! b))"
    by (simp add: Cons_nth_drop_Suc)
  with w claimWalk_progress [of r b x "drop (Suc k) (insts (f ! b))" k c k' c'] v(2)
  show ?thesis by simp
qed

lemma expandStep_inv:
  assumes "growthInv f r s" and "queue (worklist s) = i # rest"
      and "expandStep f r i (s\<lparr>worklist := (worklist s)\<lparr>queue := rest\<rparr>\<rparr>) = Inr s'"
  shows "growthInv f r s'"
proof -
  let ?s0 = "s\<lparr>worklist := (worklist s)\<lparr>queue := rest\<rparr>\<rparr>"
  obtain b k where i: "i = (b, k)" by (cases i)
  note g0 = growthInv_popped [OF assms(1,2)]
  from assms(3) i have e: "expandStep f r (b, k) ?s0 = Inr s'" by simp
  from e show ?thesis
  proof (cases rule: expandStep_cases)
    case (1 k' c' st2)
    have "growthInv f r (?s0\<lparr>candidates := c', bbs := insert b (bbs ?s0)\<rparr>)"
      using g0(1) by (simp add: growthInv_def)
    from handleSuccs_inv [OF 1(4) this] have "growthInv f r st2" .
    from checkTryAgain_inv [OF 1(5) this] show ?thesis .
  next
    case (2 k' c')
    have "growthInv f r (?s0\<lparr>candidates := c',
            exits_st := (exits_st ?s0)((b, k') \<mapsto> getPrevNode (b, k'))\<rparr>)"
      using g0(1) by (auto simp: growthInv_def getPrevNode_def)
    from checkTryAgain_inv [OF 2(4) this] show ?thesis .
  qed
qed

lemma expandStep_exits_stable:
  assumes "growthInv f r s" and "queue (worklist s) = i # rest"
      and "expandStep f r i (s\<lparr>worklist := (worklist s)\<lparr>queue := rest\<rparr>\<rparr>) = Inr s'"
      and "exits_st s x = Some fr" and "exits_st s' x = Some fr'"
  shows "fr' = fr"
proof -
  let ?s0 = "s\<lparr>worklist := (worklist s)\<lparr>queue := rest\<rparr>\<rparr>"
  obtain b k where i: "i = (b, k)" by (cases i)
  note g0 = growthInv_popped [OF assms(1,2)]
  from assms(3) i have e: "expandStep f r (b, k) ?s0 = Inr s'" by simp
  from e show ?thesis
  proof (cases rule: expandStep_cases)
    case (1 k' c' st2)
    have "exits_st (?s0\<lparr>candidates := c', bbs := insert b (bbs ?s0)\<rparr>) x = Some fr"
      using assms(4) by simp
    from handleSuccs_exits_stable [OF 1(4) this] have "exits_st st2 x = Some fr" .
    moreover from checkTryAgain_exits [OF 1(5) assms(5)] have "exits_st st2 x = Some fr'" .
    ultimately show ?thesis by simp
  next
    case (2 k' c')
    from g0(2) i obtain y where y: "inst_at f (b, k) = Some y" "validInRegion r y" by auto
    from midblock_progress [OF 2(2) y] have pos: "0 < k'" by simp
    from checkTryAgain_exits [OF 2(4) assms(5)]
    have u: "((exits_st s)((b, k') \<mapsto> getPrevNode (b, k'))) x = Some fr'" by simp
    show ?thesis
    proof (cases "x = (b, k')")
      case True
      with u have "fr' = getPrevNode (b, k')" by simp
      moreover from assms(1,4) True pos have "fr = Some (b, k' - 1)"
        by (auto simp: growthInv_def)
      ultimately show ?thesis using pos by (simp add: getPrevNode_def)
    next
      case False
      with u assms(4) show ?thesis by simp
    qed
  qed
qed

lemma reachable_inv:
  assumes "exits r = Map.empty" and "inst_at f (entry r) = Some e" and "validInRegion r e"
      and "reachable f r c s"
  shows "growthInv f r s"
  using assms(4)
proof (induction rule: reachable.induct)
  case init
  show ?case using assms(1-3)
    by (auto simp: growthInv_def initState_def push_def emptyQueue_def)
next
  case (step s i rest s')
  from expandStep_inv [OF step.IH step.hyps(2,3)] show ?case .
qed

lemma reachable_loop:
  "reachable f r c s \<Longrightarrow> expandLoop f r s = expandLoop f r (initState r c)"
proof (induction rule: reachable.induct)
  case init
  show ?case by simp
next
  case (step s i rest s')
  have "expandLoop f r s = expandLoop f r s'"
    using step.hyps(2,3) by (subst expandLoop.simps) simp
  with step.IH show ?case by simp
qed

lemma reachable_abort:
  assumes "reachable f r c s" and "queue (worklist s) = i # rest"
      and "expandStep f r i (s\<lparr>worklist := (worklist s)\<lparr>queue := rest\<rparr>\<rparr>) = Inl e"
  shows "expandRegion f r c = Some (Inl e)"
proof -
  have "expandLoop f r s = Some (Inl e)"
    using assms(2,3) by (subst expandLoop.simps) simp
  with reachable_loop [OF assms(1)] have "expandLoop f r (initState r c) = Some (Inl e)"
    by simp
  then show ?thesis by (simp add: expandRegion_def)
qed

lemma handleSuccs_abort:
  "handleSuccs f r ex pre st0 = Inr st \<Longrightarrow> handleSucc f r ex sb st = Inl e \<Longrightarrow>
     handleSuccs f r ex (pre @ sb # post) st0 = Inl e"
proof (induction pre arbitrary: st0)
  case Nil
  then show ?case by simp
next
  case (Cons p pre)
  then show ?case by (auto split: sum.splits)
qed

lemma handleSucc_conflict:
  assumes "inst_at f (sb, 0) = Some ti"
      and "\<not> (validInRegion r ti \<and> list_all (\<lambda>pb. pb \<in> bbs st) (preds f sb))"
      and "exits_st st (sb, 0) = Some old" and "old \<noteq> ex"
  shows "handleSucc f r ex sb st = Inl UnhandledCase"
  using assms by (auto simp: handleSucc_def Let_def)

text \<open>
  C3. In the growth of a region created by the driver (no exits yet, entry valid):
  whenever the loop over the successors of a sealed block is about to record an exit
  for a boundary instruction that already has a recorded exit with a different
  frontier, \<open>expandRegion\<close> aborts with the failed assertion; and no iteration
  that completes changes the frontier recorded for a boundary instruction, the
  unchecked write at a mid-block exit included.
\<close>

theorem exit_conflict_aborts:
  assumes fresh: "exits r = Map.empty"
      and ent: "inst_at f (entry r) = Some e" "validInRegion r e"
      and reach: "reachable f r c s"
      and q: "queue (worklist s) = (b, k) # rest"
  shows "(\<forall>k' c' pre sb post st ti old.
            b < length f
            \<and> claimWalk r b (drop k (insts (f ! b))) k (candidates s) = (k', c')
            \<and> length (insts (f ! b)) \<le> k'
            \<and> succs (f ! b) = pre @ sb # post
            \<and> handleSuccs f r (getPrevNode (b, k')) pre
                 (s\<lparr>worklist := (worklist s)\<lparr>queue := rest\<rparr>,
                     candidates := c', bbs := insert b (bbs s)\<rparr>) = Inr st
            \<and> inst_at f (sb, 0) = Some ti
            \<and> \<not> (validInRegion r ti \<and> list_all (\<lambda>pb. pb \<in> bbs st) (preds f sb))
            \<and> exits_st st (sb, 0) = Some old \<and> old \<noteq> getPrevNode (b, k')
          \<longrightarrow> expandRegion f r c = Some (Inl UnhandledCase))
       \<and> (\<forall>s' x fr fr'.
            expandStep f r (b, k) (s\<lparr>worklist := (worklist s)\<lparr>queue := rest\<rparr>\<rparr>) = Inr s'
            \<and> exits_st s x = Some fr \<and> exits_st s' x = Some fr'
          \<longrightarrow> fr' = fr)"
proof (intro conjI allI impI)
  fix k' c' pre sb post st ti old
  assume h: "b < length f
            \<and> claimWalk r b (drop k (insts (f ! b))) k (candidates s) = (k', c')
            \<and> length (insts (f ! b)) \<le> k'
            \<and> succs (f ! b) = pre @ sb # post
            \<and> handleSuccs f r (getPrevNode (b, k')) pre
                 (s\<lparr>worklist := (worklist s)\<lparr>queue := rest\<rparr>,
                     candidates := c', bbs := insert b (bbs s)\<rparr>) = Inr st
            \<and> inst_at f (sb, 0) = Some ti
            \<and> \<not> (validInRegion r ti \<and> list_all (\<lambda>pb. pb \<in> bbs st) (preds f sb))
            \<and> exits_st st (sb, 0) = Some old \<and> old \<noteq> getPrevNode (b, k')"
  then have c: "handleSucc f r (getPrevNode (b, k')) sb st = Inl UnhandledCase"
    by (intro handleSucc_conflict [of f sb ti r st old]) simp_all
  from h have p: "handleSuccs f r (getPrevNode (b, k')) pre
                 (s\<lparr>worklist := (worklist s)\<lparr>queue := rest\<rparr>,
                     candidates := c', bbs := insert b (bbs s)\<rparr>) = Inr st" by simp
  from handleSuccs_abort [OF p c, of post] h
  have "handleSuccs f r (getPrevNode (b, k')) (succs (f ! b))
          (s\<lparr>worklist := (worklist s)\<lparr>queue := rest\<rparr>,
              candidates := c', bbs := insert b (bbs s)\<rparr>) = Inl UnhandledCase" by simp
  with h have "expandStep f r (b, k) (s\<lparr>worklist := (worklist s)\<lparr>queue := rest\<rparr>\<rparr>)
                 = Inl UnhandledCase"
    by (simp add: expandStep_def)
  from reachable_abort [OF reach q this]
  show "expandRegion f r c = Some (Inl UnhandledCase)" .
next
  fix s' x fr fr'
  assume h: "expandStep f r (b, k) (s\<lparr>worklist := (worklist s)\<lparr>queue := rest\<rparr>\<rparr>) = Inr s'
            \<and> exits_st s x = Some fr \<and> exits_st s' x = Some fr'"
  from reachable_inv [OF fresh ent reach] have g: "growthInv f r s" .
  from h expandStep_exits_stable [OF g q, of s' x fr fr'] show "fr' = fr" by simp
qed

theorem exit_conflict_aborts_witness:
  "validInRegion triR (setProvenance (loadFrom gp) gp)
   \<and> reachable triF triR Map.empty triS1
   \<and> expandRegion triF triR Map.empty = Some (Inl UnhandledCase)"
proof -
  have fresh: "exits triR = Map.empty" by (simp add: triR_def newRegion_def Let_def)
  have ent: "inst_at triF (entry triR) = Some (setProvenance (loadFrom gp) gp)" by code_simp
  have val: "validInRegion triR (setProvenance (loadFrom gp) gp)" by code_simp
  have q0: "queue (worklist (initState triR Map.empty)) = (1, 0) # []" by code_simp
  have "\<not> isl (expandStep triF triR (1, 0) triS0)" by code_simp
  then have st: "expandStep triF triR (1, 0)
      ((initState triR Map.empty)\<lparr>worklist := (worklist (initState triR Map.empty))\<lparr>queue := []\<rparr>\<rparr>)
        = Inr triS1"
    by (simp add: triS1_def triS0_def)
  have reach: "reachable triF triR Map.empty triS1"
    by (rule reachable.step [OF reachable.init q0 st])
  have q1: "queue (worklist triS1) = (2, 0) # []" by code_simp
  define c' where "c' = snd (claimWalk triR 2 (drop 0 (insts (triF ! 2))) 0 (candidates triS1))"
  define st' where "st' = triS1\<lparr>worklist := (worklist triS1)\<lparr>queue := []\<rparr>,
                                candidates := c', bbs := insert 2 (bbs triS1)\<rparr>"
  have "fst (claimWalk triR 2 (drop 0 (insts (triF ! 2))) 0 (candidates triS1)) = 2"
    by code_simp
  then have w: "claimWalk triR 2 (drop 0 (insts (triF ! 2))) 0 (candidates triS1) = (2, c')"
    by (simp add: c'_def prod_eq_iff)
  have bl: "2 < length triF" by code_simp
  have len: "length (insts (triF ! 2)) \<le> 2" by code_simp
  have sc: "succs (triF ! 2) = [] @ 3 # []" by code_simp
  have hs: "handleSuccs triF triR (getPrevNode (2, 2)) []
              (triS1\<lparr>worklist := (worklist triS1)\<lparr>queue := []\<rparr>,
                      candidates := c', bbs := insert 2 (bbs triS1)\<rparr>) = Inr st'"
    by (simp add: st'_def)
  have ti: "inst_at triF (3, 0) = Some (setProvenance (storeTo (AllocaInst 7)) (AllocaInst 7))" by code_simp
  have "\<not> validInRegion triR (setProvenance (storeTo (AllocaInst 7)) (AllocaInst 7))" by code_simp
  then have nv: "\<not> (validInRegion triR (setProvenance (storeTo (AllocaInst 7)) (AllocaInst 7))
                    \<and> list_all (\<lambda>pb. pb \<in> bbs st') (preds triF 3))" by simp
  have "exits_st triS1 (3, 0) = Some (Some (1, 1))" by code_simp
  then have old: "exits_st st' (3, 0) = Some (Some (1, 1))" by (simp add: st'_def)
  have ne: "Some (1, 1) \<noteq> getPrevNode (2, 2)" by (simp add: getPrevNode_def)
  from exit_conflict_aborts [OF fresh ent val reach q1, THEN conjunct1, rule_format,
         of 2 c' "[]" 3 "[]" st' "setProvenance (storeTo (AllocaInst 7)) (AllocaInst 7)" "Some (1, 1)"]
       bl w len sc hs ti nv old ne
  have "expandRegion triF triR Map.empty = Some (Inl UnhandledCase)" by blast
  with val reach show ?thesis by simp
qed

section \<open>Region growth: the retry of deferred blocks\<close>

text \<open>
  The check of the try-again list does not depend on which blocks are sealed: with
  any other set of sealed blocks it aborts or succeeds alike and yields the same
  exits, deferred blocks and worklist.
\<close>

lemma checkTryAgain_ignores_sealed:
  "checkTryAgain f (st\<lparr>bbs := B\<rparr>)
     = (case checkTryAgain f st of Inl e \<Rightarrow> Inl e | Inr st' \<Rightarrow> Inr (st'\<lparr>bbs := B\<rparr>))"
  by (simp add: checkTryAgain_def Let_def split: list.splits)


text \<open>
  C1, the code at the diamond. Block 3 is deferred when block 1 is sealed, because its
  predecessor block 2 is not sealed. The check of the try-again list then erases its
  exit and enqueues it all the same: at the end of the growth the first instruction of
  block 3 is owned by the region and has no exit, while block 2 was never sealed.
\<close>

theorem retry_ignores_unsealed_predecessor:
  "(case expandLoop diaF diaR (initState diaR Map.empty) of
      Some (Inr st) \<Rightarrow>
        candidates st (3, 0) = Some (ID diaR) \<and> preds diaF 3 = [1, 2] \<and> 2 \<notin> bbs st
        \<and> exits_st st (3, 0) = None
    | _ \<Rightarrow> False)"
  by code_simp

section \<open>The driver\<close>

text \<open>
  C2, the code at the three-block layout. The anchors are collected in layout order.
  The region grown from the first anchor claims block 1; the region grown from the
  second anchor then walks from block 2 into block 1 and claims the same instructions
  again, so the membership map names the later region while the instructions that
  \<open>visit\<close> yields for the two regions overlap.
\<close>

theorem later_region_reclaims_instruction:
  "analyzeProvenance layoutFn = Inr (layF, [(1, 0), (2, 0)])
   \<and> (case processAnchor layF initDriver (1, 0) of
         Some (Inr st1) \<Rightarrow>
           candidate_map st1 (1, 0) = Some 0
           \<and> (case processAnchor layF st1 (2, 0) of
                 Some (Inr st2) \<Rightarrow>
                   candidate_map st2 (1, 0) = Some 1
                   \<and> (case fn_candidates st2 (1, 0) of
                         Some r0 \<Rightarrow> ID r0 = 0 \<and> visit collect layF r0 [] = Some (Inr [(1, 0), (1, 1)])
                       | None \<Rightarrow> False)
                   \<and> (case fn_candidates st2 (2, 0) of
                         Some r1 \<Rightarrow> ID r1 = 1
                           \<and> visit collect layF r1 [] = Some (Inr [(2, 0), (2, 1), (1, 0), (1, 1)])
                       | None \<Rightarrow> False)
               | _ \<Rightarrow> False)
       | _ \<Rightarrow> False)"
  by code_simp

text \<open>
  C8 (amended). For every anchor, the driver creates and grows a region exactly when
  the anchor is not yet owned and its provenance base is global-remote: otherwise the
  state is left as it is; in that case the outcome is that of \<open>expandRegion\<close> on
  the new region, and on success the id counter has advanced and the grown region is
  registered for the anchor. An anchor whose provenance is stack-local and not
  global-remote never causes a region to be created or grown.
\<close>

theorem processAnchor_grows_iff:
  assumes "inst_at f a = Some ai" and "getProvenance ai = Some p"
  shows "(\<not> (candidate_map st a = None \<and> isGlobalPtr p) \<longrightarrow> processAnchor f st a = Some (Inr st))
       \<and> (candidate_map st a = None \<and> isGlobalPtr p \<longrightarrow>
            (\<forall>e. expandRegion f (newRegion (id_counter st) p a) (candidate_map st) = Some (Inl e)
                 \<longrightarrow> processAnchor f st a = Some (Inl e))
            \<and> (expandRegion f (newRegion (id_counter st) p a) (candidate_map st) = None
                 \<longrightarrow> processAnchor f st a = None)
            \<and> (\<forall>st'. processAnchor f st a = Some (Inr st') \<longrightarrow>
                  id_counter st' = Suc (id_counter st)
                  \<and> (\<exists>r. fn_candidates st' a = Some r
                          \<and> expandRegion f (newRegion (id_counter st) p a) (candidate_map st)
                              = Some (Inr (r, candidate_map st')))))
       \<and> (isStack p \<and> \<not> isGlobalPtr p \<longrightarrow> processAnchor f st a = Some (Inr st))"
proof (intro conjI impI allI)
  assume "\<not> (candidate_map st a = None \<and> isGlobalPtr p)"
  with assms show "processAnchor f st a = Some (Inr st)"
    by (auto simp: processAnchor_def)
next
  fix e
  assume "candidate_map st a = None \<and> isGlobalPtr p"
    and "expandRegion f (newRegion (id_counter st) p a) (candidate_map st) = Some (Inl e)"
  with assms show "processAnchor f st a = Some (Inl e)"
    by (simp add: processAnchor_def)
next
  assume "candidate_map st a = None \<and> isGlobalPtr p"
    and "expandRegion f (newRegion (id_counter st) p a) (candidate_map st) = None"
  with assms show "processAnchor f st a = None"
    by (simp add: processAnchor_def)
next
  fix st'
  assume c: "candidate_map st a = None \<and> isGlobalPtr p"
    and s: "processAnchor f st a = Some (Inr st')"
  from assms c s obtain r cm where
    e: "expandRegion f (newRegion (id_counter st) p a) (candidate_map st) = Some (Inr (r, cm))"
    and st': "st' = st\<lparr>candidate_map := cm, id_counter := Suc (id_counter st),
                        fn_candidates := (fn_candidates st)(a \<mapsto> r)\<rparr>"
    by (auto simp: processAnchor_def split: option.splits sum.splits)
  from st' show "id_counter st' = Suc (id_counter st)" by simp
  from e st' show "\<exists>r. fn_candidates st' a = Some r
                          \<and> expandRegion f (newRegion (id_counter st) p a) (candidate_map st)
                              = Some (Inr (r, candidate_map st'))" by simp
next
  assume "isStack p \<and> \<not> isGlobalPtr p"
  with assms show "processAnchor f st a = Some (Inr st)"
    by (auto simp: processAnchor_def)
qed

theorem processAnchor_grows_iff_witness:
  "processAnchor diaF initDriver (2, 0) = Some (Inr initDriver)
   \<and> (\<exists>st'. processAnchor diaF initDriver (1, 0) = Some (Inr st') \<and> id_counter st' = Suc 0)"
proof -
  have a1: "inst_at diaF (1, 0) = Some (setProvenance (loadFrom gp) gp)" by code_simp
  have p1: "getProvenance (setProvenance (loadFrom gp) gp) = Some gp" by code_simp
  have a2: "inst_at diaF (2, 0) = Some (setProvenance (storeTo (AllocaInst 7)) (AllocaInst 7))" by code_simp
  have p2: "getProvenance (setProvenance (storeTo (AllocaInst 7)) (AllocaInst 7)) = Some (AllocaInst 7)"
    by code_simp
  have s2: "isStack (AllocaInst 7) \<and> \<not> isGlobalPtr (AllocaInst 7)" by code_simp
  have c1: "candidate_map initDriver (1, 0) = None \<and> isGlobalPtr gp" by code_simp
  have "case processAnchor diaF initDriver (1, 0) of Some (Inr st') \<Rightarrow> True | _ \<Rightarrow> False"
    by code_simp
  then obtain st' where r: "processAnchor diaF initDriver (1, 0) = Some (Inr st')"
    by (auto split: option.splits sum.splits)
  from processAnchor_grows_iff [OF a2 p2, of initDriver] s2
  have 1: "processAnchor diaF initDriver (2, 0) = Some (Inr initDriver)" by blast
  from processAnchor_grows_iff [OF a1 p1, of initDriver] c1 r
  have "id_counter st' = Suc (id_counter initDriver)" by blast
  then have "id_counter st' = Suc 0" by (simp add: initDriver_def)
  with 1 r show ?thesis by blast
qed

text \<open>
  C8 as stated fails: a function argument of global-remote pointer type is classified
  stack-local by \<open>isStack\<close> as well, and the driver grows a region for it.
\<close>

theorem stack_local_argument_grown_counterexample:
  "isStack gp \<and> inst_at diaF (1, 0) = Some (setProvenance (loadFrom gp) gp)
   \<and> getProvenance (setProvenance (loadFrom gp) gp) = Some gp
   \<and> (case processAnchor diaF initDriver (1, 0) of
         Some (Inr st) \<Rightarrow> id_counter st = 1 \<and> fn_candidates st (1, 0) \<noteq> None
       | _ \<Rightarrow> False)"
  by code_simp

section \<open>Provenance analysis and validity of other instructions\<close>

lemma analyzeInst_shape:
  assumes "analyzeInst i = Inr i'"
  shows "kind i' = kind i" and "mayReadOrWriteMemory i' = mayReadOrWriteMemory i"
    and "pointerOperand i' = pointerOperand i"
  using assms
  by (auto simp: analyzeInst_def setProvenance_def pointerOperand_def
           split: option.splits sum.splits)

lemma analyzeInsts_nth:
  "analyzeInsts xs = Inr ys \<Longrightarrow>
     length ys = length xs \<and> (\<forall>k < length xs. analyzeInst (xs ! k) = Inr (ys ! k))"
proof (induction xs arbitrary: ys)
  case Nil
  then show ?case by simp
next
  case (Cons x xs)
  from Cons.prems obtain y ys' where x: "analyzeInst x = Inr y"
    and r: "analyzeInsts xs = Inr ys'" and ys: "ys = y # ys'"
    by (auto split: sum.splits)
  from Cons.IH [OF r] x ys show ?case by (auto simp: nth_Cons split: nat.splits)
qed

lemma analyzeBlocks_nth:
  "analyzeBlocks f = Inr f' \<Longrightarrow>
     length f' = length f
     \<and> (\<forall>b < length f. analyzeInsts (insts (f ! b)) = Inr (insts (f' ! b)))"
proof (induction f arbitrary: f')
  case Nil
  then show ?case by simp
next
  case (Cons bb f)
  from Cons.prems obtain xs rest where x: "analyzeInsts (insts bb) = Inr xs"
    and r: "analyzeBlocks f = Inr rest" and f': "f' = bb\<lparr>insts := xs\<rparr> # rest"
    by (auto split: sum.splits)
  from Cons.IH [OF r] x f' show ?case by (auto simp: nth_Cons split: nat.splits)
qed

lemma inst_at_analyzed:
  assumes "analyzeBlocks f = Inr f'"
  shows "inst_at f a = Some i \<Longrightarrow> \<exists>i'. inst_at f' a = Some i' \<and> analyzeInst i = Inr i'"
    and "inst_at f a = None \<Longrightarrow> inst_at f' a = None"
proof -
  obtain b k where a: "a = (b, k)" by (cases a)
  note n = analyzeBlocks_nth [OF assms]
  { assume "inst_at f a = Some i"
    with a have b: "b < length f" and k: "k < length (insts (f ! b))" and i: "i = insts (f ! b) ! k"
      by (auto simp: inst_at_def split: if_splits)
    from n b have "analyzeInsts (insts (f ! b)) = Inr (insts (f' ! b))" by simp
    from analyzeInsts_nth [OF this] k i
    have "length (insts (f' ! b)) = length (insts (f ! b))"
      and "analyzeInst i = Inr (insts (f' ! b) ! k)" by auto
    with a b k n show "\<exists>i'. inst_at f' a = Some i' \<and> analyzeInst i = Inr i'"
      by (simp add: inst_at_def) }
  { assume h: "inst_at f a = None"
    show "inst_at f' a = None"
    proof (cases "b < length f")
      case False
      with a n show ?thesis by (simp add: inst_at_def)
    next
      case True
      from n True have "analyzeInsts (insts (f ! b)) = Inr (insts (f' ! b))" by simp
      from analyzeInsts_nth [OF this] have "length (insts (f' ! b)) = length (insts (f ! b))" by simp
      with h a True n show ?thesis by (auto simp: inst_at_def split: if_splits)
    qed }
qed

lemma set_allRefs: "set (allRefs f) = {i. inst_at f i \<noteq> None}"
  by (auto simp: allRefs_def inst_at_def image_iff split: if_splits)

lemma anchors_iff:
  assumes "analyzeProvenance f = Inr (f', anchors)"
  shows "analyzeBlocks f = Inr f'"
    and "a \<in> set anchors \<longleftrightarrow>
           (\<exists>i'. inst_at f' a = Some i' \<and> pointerOperand i' \<noteq> None \<and> isAnchor i')"
  using assms
  by (auto simp: analyzeProvenance_def set_allRefs split: sum.splits option.splits)

lemma pointerOperand_None_iff:
  "pointerOperand i = None \<longleftrightarrow> \<not> (\<exists>p. kind i = LoadInst p \<or> kind i = StoreInst p)"
  by (cases "kind i") (auto simp: pointerOperand_def)

text \<open>
  C10 (amended). Where provenance analysis runs to its end (no walk stops at the
  instruction form of a constant expression, which \<open>search\<close> frees before returning
  it), it attaches a provenance tag to every load and store, the tag being the walk
  over its pointer operand. Any other instruction is left as it is and is never
  collected as an anchor; if it carried no tag before, it has none afterwards and is
  no anchor, and if it touches memory it is valid in a region exactly when it is a
  call or invoke of a known function marked \<open>unbound\<close> or as not accessing memory.
\<close>

theorem provenance_only_on_loads_and_stores:
  assumes run: "analyzeProvenance f = Inr (f', anchors)" and at: "inst_at f a = Some i"
  shows "\<exists>i'. inst_at f' a = Some i' \<and> analyzeInst i = Inr i'
     \<and> ((\<exists>p. kind i = LoadInst p \<or> kind i = StoreInst p) \<longrightarrow>
           (\<exists>p q. (kind i = LoadInst p \<or> kind i = StoreInst p)
                  \<and> search p = Inr q \<and> getProvenance i' = Some q))
     \<and> (\<not> (\<exists>p. kind i = LoadInst p \<or> kind i = StoreInst p) \<longrightarrow>
           i' = i \<and> a \<notin> set anchors
           \<and> (getProvenance i = None \<longrightarrow>
                getProvenance i' = None \<and> \<not> isAnchor i'
                \<and> (mayReadOrWriteMemory i \<longrightarrow>
                     (validInRegion r i' \<longleftrightarrow>
                        (\<exists>fn. (kind i = CallInst (Some fn) \<or> kind i = InvokeInst (Some fn))
                              \<and> (unbound fn \<or> doesNotAccessMemory fn))))))"
proof -
  note ab = anchors_iff [OF run]
  from inst_at_analyzed(1) [OF ab(1) at] obtain i' where
    i': "inst_at f' a = Some i'" and an: "analyzeInst i = Inr i'" by blast
  have ls: "\<exists>p q. (kind i = LoadInst p \<or> kind i = StoreInst p)
                  \<and> search p = Inr q \<and> getProvenance i' = Some q"
    if "\<exists>p. kind i = LoadInst p \<or> kind i = StoreInst p"
  proof -
    from that obtain p where p: "kind i = LoadInst p \<or> kind i = StoreInst p" by blast
    then have "pointerOperand i = Some p" by (auto simp: pointerOperand_def)
    with an obtain q where "search p = Inr q" "i' = setProvenance i q"
      by (auto simp: analyzeInst_def split: sum.splits)
    with p show ?thesis by (auto simp: getProvenance_def setProvenance_def)
  qed
  have other: "i' = i \<and> a \<notin> set anchors
           \<and> (getProvenance i = None \<longrightarrow>
                getProvenance i' = None \<and> \<not> isAnchor i'
                \<and> (mayReadOrWriteMemory i \<longrightarrow>
                     (validInRegion r i' \<longleftrightarrow>
                        (\<exists>fn. (kind i = CallInst (Some fn) \<or> kind i = InvokeInst (Some fn))
                              \<and> (unbound fn \<or> doesNotAccessMemory fn)))))"
    if n: "\<not> (\<exists>p. kind i = LoadInst p \<or> kind i = StoreInst p)"
  proof -
    from n have pn: "pointerOperand i = None" by (simp add: pointerOperand_None_iff)
    with an have same: "i' = i" by (simp add: analyzeInst_def)
    from ab(2) [of a] i' same pn have na: "a \<notin> set anchors" by simp
    have "getProvenance i' = None \<and> \<not> isAnchor i'
                \<and> (mayReadOrWriteMemory i \<longrightarrow>
                     (validInRegion r i' \<longleftrightarrow>
                        (\<exists>fn. (kind i = CallInst (Some fn) \<or> kind i = InvokeInst (Some fn))
                              \<and> (unbound fn \<or> doesNotAccessMemory fn))))"
      if g: "getProvenance i = None"
      using validInRegion_iff [of r i] g same by (auto simp: isAnchor_def)
    with same na show ?thesis by blast
  qed
  show ?thesis
  proof (intro exI [of _ i'] conjI impI)
    show "inst_at f' a = Some i'" by (rule i')
    show "analyzeInst i = Inr i'" by (rule an)
    show "\<exists>p q. (kind i = LoadInst p \<or> kind i = StoreInst p)
                  \<and> search p = Inr q \<and> getProvenance i' = Some q"
      if "\<exists>p. kind i = LoadInst p \<or> kind i = StoreInst p" by (rule ls [OF that])
    show "i' = i" if "\<not> (\<exists>p. kind i = LoadInst p \<or> kind i = StoreInst p)"
      using other [OF that] by auto
    show "a \<notin> set anchors" if "\<not> (\<exists>p. kind i = LoadInst p \<or> kind i = StoreInst p)"
      using other [OF that] by auto
    show "getProvenance i' = None"
      if "\<not> (\<exists>p. kind i = LoadInst p \<or> kind i = StoreInst p)" "getProvenance i = None"
      using other [OF that(1)] that(2) by auto
    show "\<not> isAnchor i'"
      if "\<not> (\<exists>p. kind i = LoadInst p \<or> kind i = StoreInst p)" "getProvenance i = None"
      using other [OF that(1)] that(2) by auto
    show "validInRegion r i' \<longleftrightarrow>
            (\<exists>fn. (kind i = CallInst (Some fn) \<or> kind i = InvokeInst (Some fn))
                  \<and> (unbound fn \<or> doesNotAccessMemory fn))"
      if "\<not> (\<exists>p. kind i = LoadInst p \<or> kind i = StoreInst p)" "getProvenance i = None"
         "mayReadOrWriteMemory i"
      using other [OF that(1)] that(2,3) by auto
  qed
qed

theorem provenance_only_on_loads_and_stores_witness:
  "analyzeProvenance callFn
     = Inr ([\<lparr>insts = [setProvenance (loadFrom gp) gp, unboundCall, plainInst], succs = []\<rparr>], [(0, 0)])
   \<and> search gp = Inr gp
   \<and> getProvenance unboundCall = None \<and> \<not> isAnchor unboundCall
   \<and> validInRegion diaR unboundCall"
proof -
  let ?f' = "[\<lparr>insts = [setProvenance (loadFrom gp) gp, unboundCall, plainInst], succs = []\<rparr>]"
  have run: "analyzeProvenance callFn = Inr (?f', [(0, 0)])" by code_simp
  have a0: "inst_at callFn (0, 0) = Some (loadFrom gp)" by code_simp
  have a1: "inst_at callFn (0, 1) = Some unboundCall" by code_simp
  have k0: "kind (loadFrom gp) = LoadInst gp" by (simp add: loadFrom_def)
  have k1: "\<not> (\<exists>p. kind unboundCall = LoadInst p \<or> kind unboundCall = StoreInst p)"
    by (simp add: unboundCall_def)
  have e: "getProvenance unboundCall = None" "mayReadOrWriteMemory unboundCall"
    "kind unboundCall = CallInst (Some \<lparr>unbound = True, doesNotAccessMemory = False\<rparr>)"
    by (simp_all add: unboundCall_def getProvenance_def)
  from provenance_only_on_loads_and_stores [OF run a0, of diaR] k0
  obtain q where "search gp = Inr q" by auto
  moreover have "search gp = Inr gp" by (simp add: gp_def)
  ultimately have 1: "search gp = Inr gp" by simp
  from provenance_only_on_loads_and_stores [OF run a1, of diaR] k1 e(1,2)
  obtain i' where i': "i' = unboundCall" "\<not> isAnchor i'"
    and iff: "validInRegion diaR i' \<longleftrightarrow>
                (\<exists>fn. (kind unboundCall = CallInst (Some fn) \<or> kind unboundCall = InvokeInst (Some fn))
                      \<and> (unbound fn \<or> doesNotAccessMemory fn))" by blast
  have "\<exists>fn. (kind unboundCall = CallInst (Some fn) \<or> kind unboundCall = InvokeInst (Some fn))
                      \<and> (unbound fn \<or> doesNotAccessMemory fn)" using e(3) by simp
  with iff i' have 2: "validInRegion diaR unboundCall" "\<not> isAnchor unboundCall" by simp_all
  from run 1 2 e(1) show ?thesis by simp
qed

text \<open>
  C10 as stated fails: a call of a function marked \<open>unbound\<close> touches memory, is
  neither a load nor a store and has no provenance after the analysis, yet it is valid
  in a region.
\<close>

theorem unbound_call_valid_counterexample:
  "(case analyzeProvenance callFn of
      Inr (f', anchors) \<Rightarrow>
        inst_at f' (0, 1) = Some unboundCall
        \<and> mayReadOrWriteMemory unboundCall
        \<and> kind unboundCall = CallInst (Some \<lparr>unbound = True, doesNotAccessMemory = False\<rparr>)
        \<and> getProvenance unboundCall = None
        \<and> validInRegion diaR unboundCall
    | Inl e \<Rightarrow> False)"
  by code_simp

text \<open>
  The walk through a constant expression: the instruction form is a temporary, so a
  walk that stops at it has nothing left to return.
\<close>

lemma search_constant_expression_dangling:
  "search (ConstantExpr (GetElementPtrInst 0 False (GlobalVariable 1 GLOBAL_SPACE) [ConstantInt 64 0]))
     = Inl DanglingPointer"
  "search (ConstantExpr (GetElementPtrInst 0 True (GlobalVariable 1 GLOBAL_SPACE) [ConstantInt 64 0]))
     = Inr (GlobalVariable 1 GLOBAL_SPACE)"
  by (simp_all add: pointerOperandInSpace_def)

section \<open>Extraction: where the outputs are stored\<close>

lemma withStores_twice: "withStores (withStores xs s1) s2 = withStores xs (s1 @ s2)"
  by (simp add: withStores_def insertBeforeTerminator_def butlast_append)

lemma storeOutput_eq:
  assumes "storeOutput i v bs = Inr bs'"
  shows "bs' = map (\<lambda>(b, xs). (b, withStores xs (if fst v = b then [OutGEP i, OutStore v i] else []))) bs"
proof -
  from assms have "bs' = map (\<lambda>(b, xs). if b = fst v
                                then (b, insertBeforeTerminator xs [OutGEP i, OutStore v i])
                                else (b, xs)) bs"
    by (simp add: storeOutput_def split: if_splits)
  also have "\<dots> = map (\<lambda>(b, xs). (b, withStores xs (if fst v = b then [OutGEP i, OutStore v i] else []))) bs"
    by (rule map_cong) (auto simp: withStores_def)
  finally show ?thesis .
qed

lemma storeOutputs_eq:
  "storeOutputs i outputs bs = Inr bs' \<Longrightarrow>
     bs' = map (\<lambda>(b, xs). (b, withStores xs (storesFor b i outputs))) bs"
proof (induction outputs arbitrary: i bs)
  case Nil
  then show ?case by (simp add: withStores_def)
next
  case (Cons v outputs)
  from Cons.prems obtain bs1 where s: "storeOutput i v bs = Inr bs1"
    and r: "storeOutputs (Suc i) outputs bs1 = Inr bs'"
    by (auto split: sum.splits)
  from Cons.IH [OF r] storeOutput_eq [OF s]
  have "bs' = map (\<lambda>(b, xs). (b, withStores xs (storesFor b (Suc i) outputs)))
                (map (\<lambda>(b, xs). (b, withStores xs (if fst v = b then [OutGEP i, OutStore v i] else []))) bs)"
    by simp
  also have "\<dots> = map (\<lambda>(b, xs). (b, withStores xs (storesFor b i (v # outputs)))) bs"
    by (simp add: withStores_twice case_prod_beta comp_def)
  finally show ?case .
qed

lemma storeOutputs_cloned:
  "storeOutputs i outputs bs = Inr bs' \<Longrightarrow> v \<in> set outputs \<Longrightarrow> fst v \<in> fst ` set bs"
proof (induction outputs arbitrary: i bs)
  case Nil
  then show ?case by simp
next
  case (Cons u outputs)
  from Cons.prems(1) obtain bs1 where s: "storeOutput i u bs = Inr bs1"
    and r: "storeOutputs (Suc i) outputs bs1 = Inr bs'"
    by (auto split: sum.splits)
  from storeOutput_eq [OF s] have f: "fst ` set bs1 = fst ` set bs" by force
  from s have u: "fst u \<in> fst ` set bs"
    by (force simp: storeOutput_def list_ex_iff split: if_splits)
  from Cons.prems(2) Cons.IH [OF r] f u show ?case by auto
qed

lemma storesFor_none: "\<forall>v \<in> set outputs. fst v \<noteq> b \<Longrightarrow> storesFor b i outputs = []"
  by (induction outputs arbitrary: i) auto

lemma storesFor_has:
  "k < length outputs \<Longrightarrow>
     OutStore (outputs ! k) (i + k) \<in> set (storesFor (fst (outputs ! k)) i outputs)"
proof (induction outputs arbitrary: i k)
  case Nil
  then show ?case by simp
next
  case (Cons v outputs)
  show ?case
  proof (cases k)
    case 0
    then show ?thesis by simp
  next
    case (Suc j)
    with Cons.prems have "j < length outputs" by simp
    from Cons.IH [OF this, of "Suc i"] Suc show ?thesis by simp
  qed
qed

lemma new_insts_replaceAllUsesWith [simp]: "new_insts (replaceAllUsesWith bp w) = new_insts w"
  by (simp add: replaceAllUsesWith_def Let_def)

lemma new_insts_wireExit: "wireExit e w = Inr w' \<Longrightarrow> new_insts w' = new_insts w"
  by (auto simp: wireExit_def Let_def split: prod.splits option.splits if_splits)

lemma new_insts_wireExits: "wireExits es w = Inr w' \<Longrightarrow> new_insts w' = new_insts w"
proof (induction es arbitrary: w)
  case Nil
  then show ?case by simp
next
  case (Cons e es)
  from Cons.prems obtain w1 where 1: "wireExit e w = Inr w1" and 2: "wireExits es w1 = Inr w'"
    by (auto split: sum.splits)
  from Cons.IH [OF 2] new_insts_wireExit [OF 1] show ?case by simp
qed

lemma extractRegion_stages:
  assumes "extractRegion f phis rbs bb_in outputs es = Inr res"
  obtains bs w where
    "storeOutputs 0 outputs (map (\<lambda>b. (b, cloneBasicBlock f b)) rbs) = Inr bs"
    "wireExits es (redirectEntry rbs bb_in ((cloneBlocks f phis rbs)\<lparr>new_insts := bs\<rparr>)) = Inr w"
    "res = remapInstructions w" "newFnClosed res" "regionUnused rbs res"
  using assms
  by (auto simp: extractRegion_def Let_def cloneBlocks_def split: sum.splits if_splits)

lemma new_insts_extractRegion:
  assumes "extractRegion f phis rbs bb_in outputs es = Inr res"
  shows "storeOutputs 0 outputs (map (\<lambda>b. (b, cloneBasicBlock f b)) rbs) = Inr (new_insts res)"
proof -
  from assms obtain bs w where
    s: "storeOutputs 0 outputs (map (\<lambda>b. (b, cloneBasicBlock f b)) rbs) = Inr bs"
    and w: "wireExits es (redirectEntry rbs bb_in ((cloneBlocks f phis rbs)\<lparr>new_insts := bs\<rparr>)) = Inr w"
    and r: "res = remapInstructions w"
    by (rule extractRegion_stages)
  from new_insts_wireExits [OF w] r have "new_insts res = bs"
    by (simp add: remapInstructions_def redirectEntry_def)
  with s show ?thesis by simp
qed

text \<open>
  C6 (amended). Where extraction returns, in the outlined function every output value
  is stored into its field of the output struct once, immediately before the
  terminator of the cloned block that contains the value, the stores of one block
  standing in output order; a cloned block that contains no output is the plain
  clone and receives no store, also when control leaves the region from it.
\<close>

theorem outputs_stored_in_defining_block:
  assumes "extractRegion f phis rbs bb_in outputs es = Inr res"
  shows "new_insts res
           = map (\<lambda>b. (b, withStores (cloneBasicBlock f b) (storesFor b 0 outputs))) rbs
       \<and> (\<forall>b \<in> set rbs. (\<forall>v \<in> set outputs. fst v \<noteq> b) \<longrightarrow>
             (b, cloneBasicBlock f b) \<in> set (new_insts res))
       \<and> (\<forall>k < length outputs.
             fst (outputs ! k) \<in> set rbs
             \<and> OutStore (outputs ! k) k \<in> set (storesFor (fst (outputs ! k)) 0 outputs))"
proof (intro conjI ballI allI impI)
  note s = new_insts_extractRegion [OF assms]
  from storeOutputs_eq [OF s]
  show eq: "new_insts res
           = map (\<lambda>b. (b, withStores (cloneBasicBlock f b) (storesFor b 0 outputs))) rbs"
    by (simp add: comp_def)
  { fix b assume b: "b \<in> set rbs" and n: "\<forall>v \<in> set outputs. fst v \<noteq> b"
    then have "storesFor b 0 outputs = []" by (simp add: storesFor_none)
    with b show "(b, cloneBasicBlock f b) \<in> set (new_insts res)"
      unfolding eq by (force simp: withStores_def) }
  { fix k assume k: "k < length outputs"
    from storeOutputs_cloned [OF s, of "outputs ! k"] k
    show "fst (outputs ! k) \<in> set rbs" by force
    from storesFor_has [OF k, of 0]
    show "OutStore (outputs ! k) k \<in> set (storesFor (fst (outputs ! k)) 0 outputs)" by simp }
qed

theorem outputs_stored_in_defining_block_witness:
  "\<not> isl (extractRegion chainF (\<lambda>b. []) [1, 2] 1 [(1, 0)] chainExits)
   \<and> new_insts (projr (extractRegion chainF (\<lambda>b. []) [1, 2] 1 [(1, 0)] chainExits))
       = [(1, [Cloned (1, 0), OutGEP 0, OutStore (1, 0) 0, Cloned (1, 1)]),
          (2, [Cloned (2, 0), Cloned (2, 1)])]"
proof -
  let ?x = "extractRegion chainF (\<lambda>b. []) [1, 2] 1 [(1, 0)] chainExits"
  have n: "\<not> isl ?x" by code_simp
  then have r: "?x = Inr (projr ?x)" by (cases ?x) auto
  from outputs_stored_in_defining_block [OF r]
  have "new_insts (projr ?x)
          = map (\<lambda>b. (b, withStores (cloneBasicBlock chainF b) (storesFor b 0 [(1, 0)]))) [1, 2]"
    by blast
  also have "\<dots> = [(1, [Cloned (1, 0), OutGEP 0, OutStore (1, 0) 0, Cloned (1, 1)]),
          (2, [Cloned (2, 0), Cloned (2, 1)])]"
    by code_simp
  finally show ?thesis using n by simp
qed

text \<open>
  C6 as stated fails. The region grown from the load in the four-block function is
  blocks 1 and 2, left from the end of block 2; the loaded value is its output.
  Extraction returns: the branch of the clone of block 1, which
  \<open>replaceAllUsesWith\<close> has sent to the call block, is brought to the clone of
  block 2 by the remapping, the clone map having followed the replacement. The only
  exit leaves from the clone of block 2 (the incoming block of the return phi, the
  block that branches to the return block), the store of the output stands at the
  end of the clone of block 1, and nothing is stored in the block from which
  control leaves.
\<close>

theorem store_not_at_exit_counterexample:
  "(case expandRegion chainF (newRegion 0 gp (1, 0)) Map.empty of
      Some (Inr (r, cm)) \<Rightarrow>
        entry r = (1, 0) \<and> exits r (3, 0) = Some (Some (2, 1))
        \<and> map cm [(0, 0), (0, 1), (1, 0), (1, 1), (2, 0), (2, 1), (3, 0), (3, 1)]
            = [None, None, Some 0, Some 0, Some 0, Some 0, None, None]
    | _ \<Rightarrow> False)
   \<and> (case extractRegion chainF (\<lambda>b. []) [1, 2] 1 [(1, 0)] chainExits of
         Inr res \<Rightarrow>
           new_insts res = [(1, [Cloned (1, 0), OutGEP 0, OutStore (1, 0) 0, Cloned (1, 1)]),
                            (2, [Cloned (2, 0), Cloned (2, 1)])]
           \<and> new_targets res = [(1, [CloneBB 2]), (2, [BBRet])]
           \<and> phi_ret res = [(0, CloneBB 2)]
           \<and> exit_switch res = [(0, OrigBB 3)]
           \<and> old_targets res = [[BBCall], [BBCall], [OrigBB 3], []]
           \<and> clone_map res (OrigBB 2) = None
           \<and> clone_map res BBCall = Some (CloneBB 2)
           \<and> clone_map res (OrigBB 3) = Some BBRet
       | Inl e \<Rightarrow> False)"
  by code_simp

section \<open>Extraction: exit codes, the switch after the call and the phi nodes\<close>















































end
